theory Spec2Isabelle
  imports Main "HOL-Library.List_Lexorder" "HOL-Library.Char_ord"
begin

section \<open>Object storage lifecycle: shared data\<close>

text \<open>
  The model covers \<^verbatim>\<open>storage.py\<close> (client calls, listing, presigned URLs, bulk
  purge by modification time) and the two helpers of \<^verbatim>\<open>main.py\<close> that decide
  by the date in the key (\<^verbatim>\<open>get_past_papers_from_storage\<close>,
  \<^verbatim>\<open>cleanup_old_files\<close>).

  The S3 client is a record of handlers over an abstract store state. Every call the
  code makes on the client is appended to a trace, every \<^verbatim>\<open>logger\<close> call to a
  log; both travel with the store state in a \<open>world\<close>. Exceptions are values.
\<close>

datatype py_error =
    ClientError | NoCredentialsError | PaginationError | OverflowError | ValueError | KeyError
  | OtherError

datatype level = DEBUG | INFO | WARNING | ERROR

text \<open>An argument of a log call, kept unformatted.\<close>

datatype arg = S string | I int | E py_error

type_synonym log_record = "level \<times> string \<times> arg list"

text \<open>A method call on the boto3 client, with the arguments the code passes.\<close>

datatype call =
    ListObjectsV2 string "string option"
  | DeleteObjects "string list"
  | DeleteObject string
  | GeneratePresignedUrl string int

text \<open>
  An entry of \<^verbatim>\<open>Contents\<close>. \<open>LastModified\<close> is an instant in microseconds of
  local wall-clock time counted from 0001-01-01T00:00, the scale on which
  \<^verbatim>\<open>datetime\<close> compares two aware values of one time zone.
\<close>

record s3_object =
  Key :: string
  LastModified :: int
  Size :: nat

text \<open>
  A \<^verbatim>\<open>list_objects_v2\<close> response: \<^verbatim>\<open>Contents\<close> and
  \<^verbatim>\<open>NextContinuationToken\<close> may be absent from the dictionary.
\<close>

record list_response =
  Contents :: "s3_object list option"
  IsTruncated :: bool
  NextContinuationToken :: "string option"

text \<open>A \<^verbatim>\<open>delete_objects\<close> response: deleted keys, and (key, message) errors.\<close>

record delete_response =
  Deleted :: "string list option"
  Errors :: "(string \<times> string) list option"

record 's s3_client =
  list_objects_v2 :: "'s \<Rightarrow> string \<Rightarrow> string option \<Rightarrow> py_error + list_response"
  delete_objects :: "'s \<Rightarrow> string list \<Rightarrow> (py_error + delete_response) \<times> 's"
  delete_object :: "'s \<Rightarrow> string \<Rightarrow> (py_error + unit) \<times> 's"
  generate_presigned_url :: "string \<Rightarrow> int \<Rightarrow> py_error + string"

record 's world =
  st :: 's
  calls :: "call list"
  logs :: "log_record list"

definition emit :: "level \<Rightarrow> string \<Rightarrow> arg list \<Rightarrow> 's world \<Rightarrow> 's world" where
  "emit lv msg as w = w\<lparr>logs := logs w @ [(lv, msg, as)]\<rparr>"

definition emit_all :: "log_record list \<Rightarrow> 's world \<Rightarrow> 's world" where
  "emit_all rs w = w\<lparr>logs := logs w @ rs\<rparr>"

definition invoke :: "call \<Rightarrow> 's world \<Rightarrow> 's world" where
  "invoke c w = w\<lparr>calls := calls w @ [c]\<rparr>"

section \<open>storage.py\<close>

subsection \<open>list_storage_files\<close>

text \<open>
  The \<^verbatim>\<open>while response['IsTruncated']\<close> loop of \<^verbatim>\<open>list_storage_files\<close>.
  It ends only when the store answers a page that is not truncated, so the model is
  partial: \<open>None\<close> is a loop that never ends. A missing
  \<^verbatim>\<open>NextContinuationToken\<close> or \<^verbatim>\<open>Contents\<close> is the \<^verbatim>\<open>KeyError\<close>
  of the subscript.
\<close>

partial_function (option) list_more ::
  "'s s3_client \<Rightarrow> list_response \<Rightarrow> string list \<Rightarrow> 's world
    \<Rightarrow> ((py_error + string list) \<times> 's world) option" where
  "list_more c response files w =
     (if IsTruncated response then
        (case NextContinuationToken response of
           None \<Rightarrow> Some (Inl KeyError, w)
         | Some tok \<Rightarrow>
            (case list_objects_v2 c (st w) [] (Some tok) of
               Inl e \<Rightarrow> Some (Inl e, invoke (ListObjectsV2 [] (Some tok)) w)
             | Inr response' \<Rightarrow>
                (case Contents response' of
                   None \<Rightarrow> Some (Inl KeyError, invoke (ListObjectsV2 [] (Some tok)) w)
                 | Some objs \<Rightarrow>
                     list_more c response' (files @ map Key objs)
                       (emit INFO ''Retrieved additional %d files from paginated response.''
                          [I (int (length objs))]
                          (invoke (ListObjectsV2 [] (Some tok)) w)))))
      else Some (Inr files, w))"

declare list_more.simps [code]

text \<open>The three \<^verbatim>\<open>except\<close> clauses of \<^verbatim>\<open>list_storage_files\<close>; each returns None.\<close>

definition list_failed :: "py_error \<Rightarrow> 's world \<Rightarrow> 's world" where
  "list_failed e w =
     (if e = NoCredentialsError then emit ERROR ''AWS credentials not found for listing files.'' [] w
      else if e = ClientError then emit ERROR ''S3 list operation failed: %s'' [E e] w
      else emit ERROR ''An unexpected error occurred during S3 file listing: %s'' [E e] w)"

text \<open>
  \<^verbatim>\<open>list_storage_files()\<close>. The client argument is what \<^verbatim>\<open>get_s3_client()\<close>
  returns: \<open>None\<close> when the client cannot be initialised. The Python result is a list
  of keys, or \<^verbatim>\<open>None\<close> on an error.
\<close>

definition list_storage_files ::
  "'s s3_client option \<Rightarrow> 's world \<Rightarrow> (string list option \<times> 's world) option" where
  "list_storage_files client w =
     (case client of
        None \<Rightarrow> Some (None, emit ERROR ''S3 client not available. Cannot list files.'' [] w)
      | Some c \<Rightarrow>
          (let w1 = invoke (ListObjectsV2 [] None) (emit INFO ''Listing files in s3://%s'' [] w) in
           case list_objects_v2 c (st w) [] None of
             Inl e \<Rightarrow> Some (None, list_failed e w1)
           | Inr response \<Rightarrow>
              (case Contents response of
                 None \<Rightarrow> Some (Some [], emit INFO ''No objects found in bucket %s'' [] w1)
               | Some objs \<Rightarrow>
                  (case list_more c response (map Key objs)
                          (emit INFO ''Found %d files in storage.'' [I (int (length objs))] w1) of
                     None \<Rightarrow> None
                   | Some (Inl e, w2) \<Rightarrow> Some (None, list_failed e w2)
                   | Some (Inr files, w2) \<Rightarrow> Some (Some files, w2)))))"

subsection \<open>delete_from_storage\<close>

definition delete_failed :: "string \<Rightarrow> py_error \<Rightarrow> 's world \<Rightarrow> 's world" where
  "delete_failed file_key e w =
     (if e = NoCredentialsError then emit ERROR ''AWS credentials not found for delete operation.'' [] w
      else if e = ClientError then emit ERROR ''S3 delete failed for %s: %s'' [S file_key, E e] w
      else emit ERROR ''An unexpected error occurred during S3 delete of %s: %s'' [S file_key, E e] w)"

text \<open>\<^verbatim>\<open>delete_from_storage(file_key, dry_run)\<close>: True when the key was deleted, or would be.\<close>

definition delete_from_storage ::
  "'s s3_client option \<Rightarrow> string \<Rightarrow> bool \<Rightarrow> 's world \<Rightarrow> bool \<times> 's world" where
  "delete_from_storage client file_key dry_run w =
     (case client of
        None \<Rightarrow> (False, emit ERROR ''S3 client not available. Cannot delete %s'' [S file_key] w)
      | Some c \<Rightarrow>
          if dry_run
          then (True, emit WARNING ''[Dry Run] Would delete %s from s3://%s'' [S file_key] w)
          else
            (let w1 = invoke (DeleteObject file_key)
                        (emit INFO ''Deleting %s from s3://%s'' [S file_key] w) in
             case delete_object c (st w) file_key of
               (Inl e, s') \<Rightarrow> (False, delete_failed file_key e (w1\<lparr>st := s'\<rparr>))
             | (Inr u, s') \<Rightarrow>
                 (True, emit INFO ''Successfully deleted %s'' [S file_key] (w1\<lparr>st := s'\<rparr>))))"

subsection \<open>generate_presigned_url and get_file_url\<close>

text \<open>
  \<^verbatim>\<open>generate_presigned_url(s3_key, expiration, dry_run)\<close>: the URL, or
  \<^verbatim>\<open>None\<close> on any error.
\<close>

definition generate_presigned_url_for ::
  "'s s3_client option \<Rightarrow> string \<Rightarrow> int \<Rightarrow> bool \<Rightarrow> 's world \<Rightarrow> string option \<times> 's world" where
  "generate_presigned_url_for client s3_key expiration dry_run w =
     (case client of
        None \<Rightarrow>
          (None, emit ERROR ''S3 client not available. Cannot generate presigned URL for %s''
                   [S s3_key] w)
      | Some c \<Rightarrow>
          if dry_run
          then (Some (''http://example.com/presigned-url/'' @ s3_key @ ''?simulated=true''),
                emit WARNING ''[Dry Run] Would generate presigned URL for s3://%s/%s'' [S s3_key] w)
          else
            (let w1 = invoke (GeneratePresignedUrl s3_key expiration)
                        (emit INFO ''Generating presigned URL for %s (expires in %d seconds)''
                           [S s3_key, I expiration] w) in
             case generate_presigned_url c s3_key expiration of
               Inr url \<Rightarrow> (Some url, emit DEBUG ''Generated presigned URL: %s'' [S url] w1)
             | Inl e \<Rightarrow>
                 (None,
                  if e = ClientError
                  then emit ERROR ''Failed to generate presigned URL for %s: %s'' [S s3_key, E e] w1
                  else emit ERROR ''An unexpected error occurred generating presigned URL for %s: %s''
                         [S s3_key, E e] w1)))"

text \<open>\<^verbatim>\<open>get_file_url(file_key, expiration=3600)\<close>.\<close>

definition get_file_url ::
  "'s s3_client option \<Rightarrow> string \<Rightarrow> 's world \<Rightarrow> string option \<times> 's world" where
  "get_file_url client file_key w = generate_presigned_url_for client file_key 3600 False w"

subsection \<open>The paginator\<close>

text \<open>
  The token the paginator reads from a page to request the next one: that of a
  truncated page, an empty string counting as none.
\<close>

definition next_token :: "list_response \<Rightarrow> string option" where
  "next_token page =
     (if IsTruncated page
      then (case NextContinuationToken page of
              None \<Rightarrow> None
            | Some t \<Rightarrow> if t = [] then None else Some t)
      else None)"

text \<open>
  \<^verbatim>\<open>client.get_paginator('list_objects_v2').paginate(Bucket, Prefix)\<close> as the
  \<^verbatim>\<open>for page in pages\<close> loops use it. The iterator requests a page and hands it
  to the loop body; it stops when the page gives no next token; a next token equal to
  the one that fetched the page is a \<^verbatim>\<open>PaginationError\<close>; otherwise the next
  page is requested with it. The result is the pages handed over, and the exception
  that ended the iteration if one did. \<open>None\<close> is an iteration that never ends.
\<close>

partial_function (option) paginate ::
  "'s s3_client \<Rightarrow> string \<Rightarrow> string option \<Rightarrow> list_response list \<Rightarrow> 's world
    \<Rightarrow> ((list_response list \<times> py_error option) \<times> 's world) option" where
  "paginate c prefix tok pages w =
     (case list_objects_v2 c (st w) prefix tok of
        Inl e \<Rightarrow> Some ((pages, Some e), invoke (ListObjectsV2 prefix tok) w)
      | Inr page \<Rightarrow>
          (case next_token page of
             None \<Rightarrow> Some ((pages @ [page], None), invoke (ListObjectsV2 prefix tok) w)
           | Some t \<Rightarrow>
               if tok = Some t
               then Some ((pages @ [page], Some PaginationError),
                          invoke (ListObjectsV2 prefix tok) w)
               else paginate c prefix (Some t) (pages @ [page])
                      (invoke (ListObjectsV2 prefix tok) w)))"

declare paginate.simps [code]

text \<open>The objects of a page: \<^verbatim>\<open>page['Contents']\<close> under \<^verbatim>\<open>if 'Contents' in page\<close>.\<close>

definition contents_of :: "list_response \<Rightarrow> s3_object list" where
  "contents_of page = (case Contents page of None \<Rightarrow> [] | Some objs \<Rightarrow> objs)"

subsection \<open>list_archive_files\<close>

definition MICROS_PER_DAY :: int where
  "MICROS_PER_DAY = 86400000000"

text \<open>
  \<^verbatim>\<open>list_archive_files(prefix, dry_run)\<close>; \<open>now\<close> is \<^verbatim>\<open>datetime.now()\<close>.
  Every failure returns the empty list.
\<close>

definition list_archive_files ::
  "'s s3_client option \<Rightarrow> int \<Rightarrow> string \<Rightarrow> bool \<Rightarrow> 's world
    \<Rightarrow> (s3_object list \<times> 's world) option" where
  "list_archive_files client now prefix dry_run w =
     (case client of
        None \<Rightarrow> Some ([], emit ERROR ''S3 client not available. Cannot list archive files.'' [] w)
      | Some c \<Rightarrow>
          if dry_run
          then Some ([\<lparr>Key = prefix @ ''dummy_archive_1.pdf'',
                        LastModified = now - MICROS_PER_DAY, Size = 12345\<rparr>,
                      \<lparr>Key = prefix @ ''dummy_archive_2.pdf'',
                        LastModified = now - 2 * MICROS_PER_DAY, Size = 67890\<rparr>],
                     emit WARNING ''[Dry Run] Would list files in s3://%s/%s'' [S prefix] w)
          else
            (case paginate c prefix None [] (emit INFO ''Listing files in s3://%s/%s'' [S prefix] w) of
               None \<Rightarrow> None
             | Some ((pages, Some e), w1) \<Rightarrow>
                 Some ([],
                       if e = ClientError
                       then emit ERROR ''Failed to list S3 objects with prefix '%s': %s'' [S prefix, E e] w1
                       else emit ERROR ''An unexpected error occurred listing S3 files: %s'' [E e] w1)
             | Some ((pages, None), w1) \<Rightarrow>
                 (let all_files = concat (map contents_of pages) in
                  Some (all_files,
                        emit INFO (''Found %d files matching prefix '%s'' @ [CHR 0x27])
                          [I (int (length all_files)), S prefix] w1))))"

subsection \<open>delete_old_files\<close>

text \<open>
  \<^verbatim>\<open>datetime.now(tz) - timedelta(days=n)\<close>: \<^verbatim>\<open>timedelta\<close> refuses more than
  999999999 days, and the difference must stay between 0001-01-01T00:00 and
  9999-12-31T23:59:59.999999.
\<close>

definition datetime_minus_days :: "int \<Rightarrow> int \<Rightarrow> py_error + int" where
  "datetime_minus_days t n =
     (if \<bar>n\<bar> > 999999999 then Inl OverflowError
      else if 0 \<le> t - n * MICROS_PER_DAY \<and> t - n * MICROS_PER_DAY < 3652059 * MICROS_PER_DAY
      then Inr (t - n * MICROS_PER_DAY)
      else Inl OverflowError)"

text \<open>The objects the listing loop marks: \<^verbatim>\<open>last_modified_aware < cutoff_date\<close>.\<close>

definition marked_objects :: "int \<Rightarrow> list_response list \<Rightarrow> s3_object list" where
  "marked_objects cutoff_date pages =
     filter (\<lambda>obj. LastModified obj < cutoff_date) (concat (map contents_of pages))"

text \<open>What the loop body logs for one \<^verbatim>\<open>delete_objects\<close> response.\<close>

definition deleted_of :: "delete_response \<Rightarrow> string list" where
  "deleted_of response = (case Deleted response of None \<Rightarrow> [] | Some ds \<Rightarrow> ds)"

definition errors_of :: "delete_response \<Rightarrow> (string \<times> string) list" where
  "errors_of response = (case Errors response of None \<Rightarrow> [] | Some es \<Rightarrow> es)"

definition batch_log :: "delete_response \<Rightarrow> log_record list" where
  "batch_log response =
     map (\<lambda>k. (DEBUG, ''Deleted: %s'', [S k])) (deleted_of response)
     @ map (\<lambda>(k, m). (ERROR, ''Error deleting %s: %s'', [S k, S m])) (errors_of response)"

text \<open>
  The loop \<^verbatim>\<open>for i in range(0, len(files_to_delete), 1000)\<close>. An exception of
  \<^verbatim>\<open>delete_objects\<close> leaves the loop; the result carries it with the count
  reached, which the handler of \<^verbatim>\<open>ClientError\<close> returns.
\<close>

function delete_batches ::
  "'s s3_client \<Rightarrow> string list \<Rightarrow> nat \<Rightarrow> nat \<Rightarrow> 's world \<Rightarrow> (py_error option \<times> nat) \<times> 's world" where
  "delete_batches c files_to_delete i deleted_count w =
     (if i < length files_to_delete then
        (case delete_objects c (st w) (take 1000 (drop i files_to_delete)) of
           (Inl e, s') \<Rightarrow>
             ((Some e, deleted_count),
              (invoke (DeleteObjects (take 1000 (drop i files_to_delete))) w)\<lparr>st := s'\<rparr>)
         | (Inr response, s') \<Rightarrow>
             delete_batches c files_to_delete (i + 1000)
               (deleted_count + length (deleted_of response))
               (emit_all (batch_log response)
                  ((invoke (DeleteObjects (take 1000 (drop i files_to_delete))) w)\<lparr>st := s'\<rparr>)))
      else ((None, deleted_count), w))"
  by pat_completeness auto
termination
  by (relation "measure (\<lambda>(c, files, i, n, w). length files - i)") auto

text \<open>
  \<^verbatim>\<open>delete_old_files(retention_days, prefix, dry_run)\<close>; \<open>now\<close> is the clock.
  The cutoff is computed before the \<^verbatim>\<open>try\<close>, so its \<^verbatim>\<open>OverflowError\<close>
  reaches the caller; every other path returns a count.
\<close>

definition delete_old_files ::
  "'s s3_client option \<Rightarrow> int \<Rightarrow> int \<Rightarrow> string \<Rightarrow> bool \<Rightarrow> 's world
    \<Rightarrow> ((py_error + nat) \<times> 's world) option" where
  "delete_old_files client now retention_days prefix dry_run w =
     (case client of
        None \<Rightarrow> Some (Inr 0, emit ERROR ''S3 client not available. Cannot delete old files.'' [] w)
      | Some c \<Rightarrow>
         (case datetime_minus_days now retention_days of
            Inl e \<Rightarrow> Some (Inl e, w)
          | Inr cutoff_date \<Rightarrow>
             (case paginate c prefix None []
                     (emit INFO (''Deleting files older than %s (%d days) with prefix '%s'' @ [CHR 0x27])
                        [I cutoff_date, I retention_days, S prefix] w) of
                None \<Rightarrow> None
              | Some ((pages, err), w1) \<Rightarrow>
                 (let files_to_delete = map Key (marked_objects cutoff_date pages);
                      w2 = emit_all
                             (map (\<lambda>obj. (DEBUG, ''Marked for deletion: %s (Last Modified: %s)'',
                                           [S (Key obj), I (LastModified obj)]))
                                (marked_objects cutoff_date pages)) w1 in
                  case err of
                    Some e \<Rightarrow>
                      Some (Inr 0,
                            if e = ClientError
                            then emit ERROR ''Error listing or preparing files for deletion: %s'' [E e] w2
                            else emit ERROR ''Unexpected error during file deletion process: %s'' [E e] w2)
                  | None \<Rightarrow>
                      if files_to_delete = []
                      then Some (Inr 0,
                                 emit INFO ''No files found older than %d days to delete.''
                                   [I retention_days] w2)
                      else if dry_run
                      then Some (Inr (length files_to_delete),
                                 emit_all
                                   (map (\<lambda>k. (INFO, ''[Dry Run] Would delete: %s'', [S k]))
                                      files_to_delete)
                                   (emit INFO ''[Dry Run] Would delete %d files older than %d days''
                                      [I (int (length files_to_delete)), I retention_days] w2))
                      else
                        (case delete_batches c files_to_delete 0 0 w2 of
                           ((None, deleted_count), w3) \<Rightarrow>
                             Some (Inr deleted_count,
                                   emit INFO ''Successfully deleted %d files older than %d days''
                                     [I (int deleted_count), I retention_days] w3)
                         | ((Some e, deleted_count), w3) \<Rightarrow>
                             if e = ClientError
                             then Some (Inr deleted_count,
                                        emit ERROR ''Error during bulk deletion API call: %s'' [E e] w3)
                             else Some (Inr 0,
                                        emit ERROR ''Unexpected error during file deletion process: %s''
                                          [E e] w3))))))"

section \<open>Calendar dates\<close>

text \<open>
  A \<^verbatim>\<open>datetime.date\<close> is its proleptic Gregorian ordinal
  (\<^verbatim>\<open>date.toordinal()\<close>): 1 is 0001-01-01 and 3652059 is 9999-12-31.
  Comparison and \<^verbatim>\<open>timedelta\<close> arithmetic are those of the ordinals.
\<close>

definition date_minus_days :: "int \<Rightarrow> int \<Rightarrow> py_error + int" where
  \<comment> \<open>\<^verbatim>\<open>d - timedelta(days=n)\<close>, with both \<^verbatim>\<open>OverflowError\<close>s\<close>
  "date_minus_days d n =
     (if \<bar>n\<bar> > 999999999 then Inl OverflowError
      else if 1 \<le> d - n \<and> d - n \<le> 3652059 then Inr (d - n)
      else Inl OverflowError)"

definition is_leap :: "int \<Rightarrow> bool" where
  "is_leap y = (y mod 4 = 0 \<and> (y mod 100 \<noteq> 0 \<or> y mod 400 = 0))"

definition days_in_month :: "int \<Rightarrow> int \<Rightarrow> int" where
  "days_in_month y m =
     (if m = 2 then (if is_leap y then 29 else 28)
      else if m = 4 \<or> m = 6 \<or> m = 9 \<or> m = 11 then 30 else 31)"

definition days_before_year :: "int \<Rightarrow> int" where
  "days_before_year y = (y - 1) * 365 + (y - 1) div 4 - (y - 1) div 100 + (y - 1) div 400"

definition days_before_month :: "int \<Rightarrow> int \<Rightarrow> int" where
  "days_before_month y m =
     [0, 0, 31, 59, 90, 120, 151, 181, 212, 243, 273, 304, 334] ! nat m
     + (if m > 2 \<and> is_leap y then 1 else 0)"

definition ymd2ord :: "int \<Rightarrow> int \<Rightarrow> int \<Rightarrow> int" where
  "ymd2ord y m d = days_before_year y + days_before_month y m + d"

text \<open>\<^verbatim>\<open>_ord2ymd\<close> of CPython's \<^verbatim>\<open>datetime\<close>, for ordinals from 1.\<close>

definition ord2ymd :: "int \<Rightarrow> int \<times> int \<times> int" where
  "ord2ymd ordinal =
     (let n0 = ordinal - 1;
          n400 = n0 div 146097; n1 = n0 mod 146097;
          n100 = n1 div 36524; n2 = n1 mod 36524;
          n4 = n2 div 1461; n3 = n2 mod 1461;
          n1y = n3 div 365; n = n3 mod 365;
          year = n400 * 400 + 1 + n100 * 100 + n4 * 4 + n1y
      in if n1y = 4 \<or> n100 = 4 then (year - 1, 12, 31)
         else
           (let leapyear = (n1y = 3 \<and> (n4 \<noteq> 24 \<or> n100 = 3));
                month = (n + 50) div 32;
                preceding = days_before_month year month
            in if preceding > n
               then (year, month - 1, n - (preceding - days_in_month year (month - 1)) + 1)
               else (year, month, n - preceding + 1)))"

subsection \<open>The default date format\<close>

text \<open>
  \<^verbatim>\<open>DATE_FORMAT\<close> comes from the configuration; the functions of
  \<^verbatim>\<open>main.py\<close> below take its parser and formatter as parameters. The default
  \<^verbatim>\<open>'%Y-%m-%d'\<close> is modelled here on ASCII text: \<^verbatim>\<open>strptime\<close> wants four
  digits, a month written \<^verbatim>\<open>1[0-2]|0[1-9]|[1-9]\<close>, a day written
  \<^verbatim>\<open>3[0-1]|[1-2]\d|0[1-9]|[1-9]| [1-9]\<close>, nothing after it, and a date that
  exists. \<open>None\<close> is its \<^verbatim>\<open>ValueError\<close>.
\<close>

definition is_digit :: "char \<Rightarrow> bool" where
  "is_digit c = (CHR ''0'' \<le> c \<and> c \<le> CHR ''9'')"

definition digit_val :: "char \<Rightarrow> int" where
  "digit_val c = int (of_char c) - 48"

definition month_token :: "string \<Rightarrow> int option" where
  "month_token tok =
     (case tok of
        [a] \<Rightarrow> if is_digit a \<and> a \<noteq> CHR ''0'' then Some (digit_val a) else None
      | [a, b] \<Rightarrow>
          if is_digit a \<and> is_digit b \<and> 1 \<le> 10 * digit_val a + digit_val b
             \<and> 10 * digit_val a + digit_val b \<le> 12
          then Some (10 * digit_val a + digit_val b) else None
      | _ \<Rightarrow> None)"

definition day_token :: "string \<Rightarrow> int option" where
  "day_token tok =
     (case tok of
        [a] \<Rightarrow> if is_digit a \<and> a \<noteq> CHR ''0'' then Some (digit_val a) else None
      | [a, b] \<Rightarrow>
          if a = CHR '' '' \<and> is_digit b \<and> b \<noteq> CHR ''0'' then Some (digit_val b)
          else if is_digit a \<and> is_digit b \<and> 1 \<le> 10 * digit_val a + digit_val b
             \<and> 10 * digit_val a + digit_val b \<le> 31
          then Some (10 * digit_val a + digit_val b) else None
      | _ \<Rightarrow> None)"

definition strptime_ymd :: "string \<Rightarrow> int option" where
  "strptime_ymd s =
     (case s of
        y1 # y2 # y3 # y4 # sep # rest \<Rightarrow>
          if is_digit y1 \<and> is_digit y2 \<and> is_digit y3 \<and> is_digit y4 \<and> sep = CHR ''-''
          then
            (let year = 1000 * digit_val y1 + 100 * digit_val y2 + 10 * digit_val y3 + digit_val y4;
                 mtok = takeWhile (\<lambda>c. c \<noteq> CHR ''-'') rest
             in case drop (length mtok) rest of
                  [] \<Rightarrow> None
                | sep2 # dtok \<Rightarrow>
                   (case month_token mtok of
                      None \<Rightarrow> None
                    | Some month \<Rightarrow>
                       (case day_token dtok of
                          None \<Rightarrow> None
                        | Some day \<Rightarrow>
                            if 1 \<le> year \<and> day \<le> days_in_month year month
                            then Some (ymd2ord year month day) else None)))
          else None
      | _ \<Rightarrow> None)"

definition two_digits :: "int \<Rightarrow> string" where
  "two_digits n = [char_of (48 + n div 10), char_of (48 + n mod 10)]"

definition strftime_ymd :: "int \<Rightarrow> string" where
  \<comment> \<open>the year is written with four digits, as for every year from 1000\<close>
  "strftime_ymd d =
     (case ord2ymd d of
        (y, m, dd) \<Rightarrow>
          two_digits (y div 100) @ two_digits (y mod 100) @ ''-'' @ two_digits m @ ''-''
          @ two_digits dd)"

section \<open>main.py\<close>

record config =
  strptime :: "string \<Rightarrow> int option"
    \<comment> \<open>\<^verbatim>\<open>datetime.strptime(s, DATE_FORMAT).date()\<close>; \<open>None\<close> is \<^verbatim>\<open>ValueError\<close>\<close>
  strftime :: "int \<Rightarrow> string"
    \<comment> \<open>\<^verbatim>\<open>d.strftime(DATE_FORMAT)\<close>\<close>
  RETENTION_DAYS :: int

definition default_config :: config where
  "default_config = \<lparr>strptime = strptime_ymd, strftime = strftime_ymd, RETENTION_DAYS = 7\<rparr>"

subsection \<open>String tests\<close>

definition startswith :: "string \<Rightarrow> string \<Rightarrow> bool" where
  "startswith s p = (take (length p) s = p)"

definition endswith :: "string \<Rightarrow> string \<Rightarrow> bool" where
  "endswith s p = (length p \<le> length s \<and> drop (length s - length p) s = p)"

text \<open>\<^verbatim>\<open>sub in s\<close> on strings.\<close>

fun contains :: "string \<Rightarrow> string \<Rightarrow> bool" where
  "contains sub [] = (sub = [])"
| "contains sub (c # cs) = (startswith (c # cs) sub \<or> contains sub cs)"

text \<open>\<^verbatim>\<open>filename.split('_')[0]\<close>: the text before the first underscore.\<close>

definition date_str_of :: "string \<Rightarrow> string" where
  "date_str_of filename = takeWhile (\<lambda>c. c \<noteq> CHR ''_'') filename"

definition is_newspaper :: "string \<Rightarrow> bool" where
  "is_newspaper filename =
     (contains ''newspaper'' filename
      \<and> (endswith filename ''.pdf'' \<or> endswith filename ''.html''))"

subsection \<open>list.sort(key, reverse=True)\<close>

text \<open>A stable sort, largest key first: equal keys keep the order they had.\<close>

fun insort_rev :: "('a \<Rightarrow> 'k::linorder) \<Rightarrow> 'a \<Rightarrow> 'a list \<Rightarrow> 'a list" where
  "insort_rev f x [] = [x]"
| "insort_rev f x (y # ys) = (if f y \<le> f x then x # y # ys else y # insort_rev f x ys)"

definition sort_rev :: "('a \<Rightarrow> 'k::linorder) \<Rightarrow> 'a list \<Rightarrow> 'a list" where
  "sort_rev f xs = foldr (insort_rev f) xs []"

subsection \<open>get_past_papers_from_storage\<close>

text \<open>
  The loop \<^verbatim>\<open>for filename in all_files\<close> that builds \<^verbatim>\<open>dated_files\<close>.
  \<^verbatim>\<open>split\<close> always yields a first part, so only \<^verbatim>\<open>strptime\<close> can raise;
  its \<^verbatim>\<open>ValueError\<close> is caught, logged, and the loop goes on.
\<close>

fun dated_files_loop ::
  "config \<Rightarrow> string list \<Rightarrow> (int \<times> string) list \<Rightarrow> 's world \<Rightarrow> (int \<times> string) list \<times> 's world" where
  "dated_files_loop cfg [] dated_files w = (dated_files, w)"
| "dated_files_loop cfg (filename # rest) dated_files w =
     (case strptime cfg (date_str_of filename) of
        None \<Rightarrow>
          dated_files_loop cfg rest dated_files
            (emit WARNING ''Could not parse date from filename: %s. Skipping.'' [S filename] w)
      | Some file_date \<Rightarrow>
          if is_newspaper filename
          then dated_files_loop cfg rest (dated_files @ [(file_date, filename)]) w
          else dated_files_loop cfg rest dated_files w)"

text \<open>
  The loop \<^verbatim>\<open>for file_date, filename in dated_files\<close>. \<^verbatim>\<open>get_file_url\<close>
  catches every exception itself, so the two \<^verbatim>\<open>except\<close> clauses around it never
  run. An empty URL is as false as \<^verbatim>\<open>None\<close>.
\<close>

fun links_loop ::
  "config \<Rightarrow> 's s3_client option \<Rightarrow> int \<Rightarrow> int \<Rightarrow> int \<Rightarrow> (int \<times> string) list
    \<Rightarrow> (string \<times> string) list \<Rightarrow> 's world \<Rightarrow> (string \<times> string) list \<times> 's world" where
  "links_loop cfg client target_date cutoff_date days [] past_papers_links w =
     (past_papers_links, w)"
| "links_loop cfg client target_date cutoff_date days ((file_date, filename) # rest)
     past_papers_links w =
     (case (if file_date \<ge> cutoff_date \<and> file_date \<le> target_date
            then (case get_file_url client filename w of
                    (Some url, w1) \<Rightarrow>
                      if url \<noteq> []
                      then (past_papers_links @ [(strftime cfg file_date, url)], w1)
                      else (past_papers_links,
                            emit WARNING ''Could not get URL for file: %s'' [S filename] w1)
                  | (None, w1) \<Rightarrow>
                      (past_papers_links,
                       emit WARNING ''Could not get URL for file: %s'' [S filename] w1))
            else (past_papers_links, w)) of
        (links, w2) \<Rightarrow>
          if int (length links) \<ge> days then (links, w2)
          else links_loop cfg client target_date cutoff_date days rest links w2)"

text \<open>
  \<^verbatim>\<open>get_past_papers_from_storage(target_date, days=None)\<close>: the (date, URL)
  links, most recent first. Every exception inside, the \<^verbatim>\<open>OverflowError\<close> of
  the cutoff among them, ends in \<^verbatim>\<open>return []\<close>.
\<close>

definition get_past_papers_from_storage ::
  "config \<Rightarrow> 's s3_client option \<Rightarrow> int \<Rightarrow> int option \<Rightarrow> 's world
    \<Rightarrow> ((string \<times> string) list \<times> 's world) option" where
  "get_past_papers_from_storage cfg client target_date days_arg w =
     (let days = (case days_arg of None \<Rightarrow> RETENTION_DAYS cfg | Some d \<Rightarrow> d) in
      case list_storage_files client
             (emit INFO ''Retrieving past %d paper links from storage up to %s.''
                [I days, S (strftime cfg target_date)] w) of
        None \<Rightarrow> None
      | Some (all_files, w1) \<Rightarrow>
          if all_files = None \<or> all_files = Some []
          then Some ([], emit WARNING ''No files found in cloud storage.'' [] w1)
          else
            (case dated_files_loop cfg (the all_files) []
                    (emit INFO ''Found %d files in storage. Filtering for the last %d days.''
                       [I (int (length (the all_files))), I days] w1) of
               (dated_files, w2) \<Rightarrow>
                 (case date_minus_days target_date (days - 1) of
                    Inl e \<Rightarrow>
                      Some ([], emit ERROR ''Error retrieving past papers from storage: %s'' [E e] w2)
                  | Inr cutoff_date \<Rightarrow>
                      (case links_loop cfg client target_date cutoff_date days
                              (sort_rev fst dated_files) [] w2 of
                         (past_papers_links, w3) \<Rightarrow>
                           Some (sort_rev fst past_papers_links,
                                 emit INFO ''Collected %d past paper links from storage.''
                                   [I (int (length past_papers_links))] w3)))))"

subsection \<open>cleanup_old_files\<close>

text \<open>
  The loop \<^verbatim>\<open>for filename in all_files\<close> of \<^verbatim>\<open>cleanup_old_files\<close>;
  \<^verbatim>\<open>delete_from_storage\<close> returns a truth value and raises nothing.
\<close>

fun cleanup_loop ::
  "config \<Rightarrow> 's s3_client option \<Rightarrow> int \<Rightarrow> bool \<Rightarrow> string list \<Rightarrow> nat \<Rightarrow> 's world
    \<Rightarrow> nat \<times> 's world" where
  "cleanup_loop cfg client cutoff_date dry_run [] deleted_count w = (deleted_count, w)"
| "cleanup_loop cfg client cutoff_date dry_run (filename # rest) deleted_count w =
     (case strptime cfg (date_str_of filename) of
        None \<Rightarrow>
          cleanup_loop cfg client cutoff_date dry_run rest deleted_count
            (emit WARNING ''Could not parse date from filename for cleanup: %s. Skipping.''
               [S filename] w)
      | Some file_date \<Rightarrow>
          if file_date < cutoff_date
          then
            (case delete_from_storage client filename dry_run
                    (emit INFO ''Attempting to delete old file: %s (Date: %s)''
                       [S filename, I file_date] w) of
               (True, w1) \<Rightarrow>
                 cleanup_loop cfg client cutoff_date dry_run rest (deleted_count + 1)
                   (emit INFO ''Successfully deleted %s%s''
                      [S filename, S (if dry_run then '' (Dry Run)'' else [])] w1)
             | (False, w1) \<Rightarrow>
                 cleanup_loop cfg client cutoff_date dry_run rest deleted_count w1)
          else cleanup_loop cfg client cutoff_date dry_run rest deleted_count w)"

text \<open>
  \<^verbatim>\<open>cleanup_old_files(target_date, days_to_keep=None, dry_run=False)\<close>. It
  returns nothing; what it did is in the trace and in the log.
\<close>

definition cleanup_old_files ::
  "config \<Rightarrow> 's s3_client option \<Rightarrow> int \<Rightarrow> int option \<Rightarrow> bool \<Rightarrow> 's world \<Rightarrow> 's world option" where
  "cleanup_old_files cfg client target_date days_arg dry_run w =
     (let days_to_keep = (case days_arg of None \<Rightarrow> RETENTION_DAYS cfg | Some d \<Rightarrow> d) in
      case list_storage_files client w of
        None \<Rightarrow> None
      | Some (all_files, w1) \<Rightarrow>
          if all_files = None \<or> all_files = Some []
          then Some (emit INFO ''No files found in storage, skipping cleanup.'' [] w1)
          else
            (case date_minus_days target_date days_to_keep of
               Inl e \<Rightarrow>
                 Some (emit ERROR ''Error during old file cleanup: %s'' [E e]
                         (emit INFO ''Checking %d files for cleanup (older than %d days relative to %s).''
                            [I (int (length (the all_files))), I days_to_keep,
                             S (strftime cfg target_date)] w1))
             | Inr cutoff_date \<Rightarrow>
                 (case cleanup_loop cfg client cutoff_date dry_run (the all_files) 0
                         (emit INFO ''Checking %d files for cleanup (older than %d days relative to %s).''
                            [I (int (length (the all_files))), I days_to_keep,
                             S (strftime cfg target_date)] w1) of
                    (deleted_count, w2) \<Rightarrow>
                      Some (emit INFO ''Cleanup complete. %s %d old files.''
                              [S (if dry_run then ''Simulated deleting'' else ''Deleted''),
                               I (int deleted_count)] w2))))"

section \<open>Notions used in the statements\<close>

text \<open>
  The (date, key) pairs that \<^verbatim>\<open>dated_files\<close> holds after the first loop: the
  keys whose date parses and that name a newspaper document, in listing order.
\<close>

definition dated_of :: "config \<Rightarrow> string list \<Rightarrow> (int \<times> string) list" where
  "dated_of cfg files =
     List.map_filter
       (\<lambda>k. case strptime cfg (date_str_of k) of
               None \<Rightarrow> None
             | Some d \<Rightarrow> if is_newspaper k then Some (d, k) else None) files"

text \<open>
  The test of the second loop, the URL \<^verbatim>\<open>get_file_url\<close> returns for a key, the
  link the loop appends for a pair, the client calls that asking costs, and the world
  after the loop body has asked.
\<close>

definition in_window :: "int \<Rightarrow> int \<Rightarrow> int \<times> string \<Rightarrow> bool" where
  "in_window cutoff_date target_date x = (fst x \<ge> cutoff_date \<and> fst x \<le> target_date)"

definition url_of :: "'s s3_client option \<Rightarrow> string \<Rightarrow> string option" where
  "url_of client k =
     (case client of
        None \<Rightarrow> None
      | Some c \<Rightarrow> (case generate_presigned_url c k 3600 of Inr url \<Rightarrow> Some url | Inl e \<Rightarrow> None))"

definition link_of :: "config \<Rightarrow> 's s3_client option \<Rightarrow> int \<times> string \<Rightarrow> (string \<times> string) option" where
  "link_of cfg client x =
     (case url_of client (snd x) of
        Some url \<Rightarrow> if url \<noteq> [] then Some (strftime cfg (fst x), url) else None
      | None \<Rightarrow> None)"

definition url_calls :: "'s s3_client option \<Rightarrow> string \<Rightarrow> call list" where
  "url_calls client k = (case client of None \<Rightarrow> [] | Some c \<Rightarrow> [GeneratePresignedUrl k 3600])"

definition ask_url :: "'s s3_client option \<Rightarrow> string \<Rightarrow> 's world \<Rightarrow> 's world" where
  "ask_url client filename w =
     (case get_file_url client filename w of
        (Some url, w1) \<Rightarrow>
          if url \<noteq> [] then w1 else emit WARNING ''Could not get URL for file: %s'' [S filename] w1
      | (None, w1) \<Rightarrow> emit WARNING ''Could not get URL for file: %s'' [S filename] w1)"

text \<open>The client calls made between two worlds of one run.\<close>

definition new_calls :: "'s world \<Rightarrow> 's world \<Rightarrow> call list" where
  "new_calls w w' = drop (length (calls w)) (calls w')"

definition new_logs :: "'s world \<Rightarrow> 's world \<Rightarrow> log_record list" where
  "new_logs w w' = drop (length (logs w)) (logs w')"

definition is_list_call :: "call \<Rightarrow> bool" where
  "is_list_call c = (case c of ListObjectsV2 p t \<Rightarrow> True | _ \<Rightarrow> False)"

text \<open>
  A store state that answers a listing in these pages: the first request (with the
  token given) returns the first page, every page but the last is truncated and
  carries the token that returns the next one, and the last page is not truncated.
\<close>

fun serves :: "'s s3_client \<Rightarrow> 's \<Rightarrow> string \<Rightarrow> string option \<Rightarrow> list_response list \<Rightarrow> bool" where
  "serves c s prefix tok [] = False"
| "serves c s prefix tok (page # rest) =
     (list_objects_v2 c s prefix tok = Inr page \<and>
      (if rest = [] then \<not> IsTruncated page
       else IsTruncated page \<and> NextContinuationToken page \<noteq> None
            \<and> serves c s prefix (NextContinuationToken page) rest))"

text \<open>
  A store state whose listing breaks: it answers these pages, each truncated and
  carrying a token, and the request for the page after them raises.
\<close>

fun breaks :: "'s s3_client \<Rightarrow> 's \<Rightarrow> string \<Rightarrow> string option \<Rightarrow> list_response list \<Rightarrow> py_error \<Rightarrow> bool" where
  "breaks c s prefix tok [] e = (list_objects_v2 c s prefix tok = Inl e)"
| "breaks c s prefix tok (page # rest) e =
     (list_objects_v2 c s prefix tok = Inr page \<and> IsTruncated page
      \<and> NextContinuationToken page \<noteq> None
      \<and> breaks c s prefix (NextContinuationToken page) rest e)"

text \<open>
  A store state on which the paginator hands over these pages and stops: each request
  returns the next page; every page but the last is truncated and carries a token that
  is neither empty nor the one that fetched the page; the last page carries no token,
  or an empty one.
\<close>

fun yields :: "'s s3_client \<Rightarrow> 's \<Rightarrow> string \<Rightarrow> string option \<Rightarrow> list_response list \<Rightarrow> bool" where
  "yields c s prefix tok [] = False"
| "yields c s prefix tok (page # rest) =
     (list_objects_v2 c s prefix tok = Inr page \<and>
      (if rest = []
       then NextContinuationToken page = None \<or> NextContinuationToken page = Some []
       else IsTruncated page \<and> NextContinuationToken page \<noteq> None
            \<and> NextContinuationToken page \<noteq> Some [] \<and> NextContinuationToken page \<noteq> tok
            \<and> yields c s prefix (NextContinuationToken page) rest))"

text \<open>
  A store state on which the paginator hands over these pages and then raises: every
  page is truncated and carries a token that is not empty; either the request after the
  last page raises, or the last page carries the very token that fetched it, which is
  a \<^verbatim>\<open>PaginationError\<close>.
\<close>

fun raises_after ::
  "'s s3_client \<Rightarrow> 's \<Rightarrow> string \<Rightarrow> string option \<Rightarrow> list_response list \<Rightarrow> py_error \<Rightarrow> bool" where
  "raises_after c s prefix tok [] e = (list_objects_v2 c s prefix tok = Inl e)"
| "raises_after c s prefix tok (page # rest) e =
     (list_objects_v2 c s prefix tok = Inr page \<and> IsTruncated page
      \<and> NextContinuationToken page \<noteq> None \<and> NextContinuationToken page \<noteq> Some []
      \<and> (if NextContinuationToken page = tok then rest = [] \<and> e = PaginationError
          else raises_after c s prefix (NextContinuationToken page) rest e))"

text \<open>The keys of the pages, in store order.\<close>

definition keys_of :: "list_response list \<Rightarrow> string list" where
  "keys_of pages = map Key (concat (map contents_of pages))"

text \<open>The requests that fetch the pages, in order.\<close>

definition page_calls :: "string \<Rightarrow> string option \<Rightarrow> list_response list \<Rightarrow> call list" where
  "page_calls prefix tok pages =
     map (ListObjectsV2 prefix) (tok # map NextContinuationToken (butlast pages))"

text \<open>
  The dated newspaper documents of a listing that lie in the window, most recent
  first: the pairs the second loop asks a URL for, while it runs.
\<close>

definition recent_documents :: "config \<Rightarrow> int \<Rightarrow> int \<Rightarrow> string list \<Rightarrow> (int \<times> string) list" where
  "recent_documents cfg cutoff_date target_date files =
     filter (in_window cutoff_date target_date) (sort_rev fst (dated_of cfg files))"

text \<open>
  The keys \<^verbatim>\<open>cleanup_old_files\<close> takes for old: the date parses and lies
  before the cutoff. The keys a log says were handed to \<^verbatim>\<open>delete_from_storage\<close>
  are those of its \<^verbatim>\<open>Attempting to delete old file\<close> records.
\<close>

definition is_expired :: "config \<Rightarrow> int \<Rightarrow> string \<Rightarrow> bool" where
  "is_expired cfg cutoff_date filename =
     (case strptime cfg (date_str_of filename) of
        None \<Rightarrow> False
      | Some file_date \<Rightarrow> file_date < cutoff_date)"

definition attempted_keys :: "log_record list \<Rightarrow> string list" where
  "attempted_keys rs =
     List.map_filter
       (\<lambda>r. if fst (snd r) = ''Attempting to delete old file: %s (Date: %s)''
            then (case snd (snd r) of S k # as \<Rightarrow> Some k | _ \<Rightarrow> None)
            else None) rs"

text \<open>
  The purge in the words of its description: the keys cut into ordered batches of at
  most \<open>n\<close>, one bulk request per batch.
\<close>

function batches_of :: "nat \<Rightarrow> 'a list \<Rightarrow> 'a list list" where
  "batches_of n xs = (if n = 0 \<or> xs = [] then [] else take n xs # batches_of n (drop n xs))"
  by pat_completeness auto
termination
  by (relation "measure (\<lambda>(n, xs). length xs)") auto

declare batches_of.simps [simp del]

text \<open>
  What the store answers to the batches sent one after the other, each request
  acting on the state the one before left.
\<close>

fun replies :: "'s s3_client \<Rightarrow> 's \<Rightarrow> string list list \<Rightarrow> (py_error + delete_response) list" where
  "replies c s [] = []"
| "replies c s (b # bs) = (case delete_objects c s b of (r, s') \<Rightarrow> r # replies c s' bs)"

text \<open>
  The batches sent when sending stops at the first request that raises; the exception
  that stopped it, if any; and the deleted keys counted up to there.
\<close>

fun issued :: "'s s3_client \<Rightarrow> 's \<Rightarrow> string list list \<Rightarrow> string list list" where
  "issued c s [] = []"
| "issued c s (b # bs) =
     (case delete_objects c s b of (Inl e, s') \<Rightarrow> [b] | (Inr r, s') \<Rightarrow> b # issued c s' bs)"

fun first_error :: "'s s3_client \<Rightarrow> 's \<Rightarrow> string list list \<Rightarrow> py_error option" where
  "first_error c s [] = None"
| "first_error c s (b # bs) =
     (case delete_objects c s b of (Inl e, s') \<Rightarrow> Some e | (Inr r, s') \<Rightarrow> first_error c s' bs)"

fun tally :: "'s s3_client \<Rightarrow> 's \<Rightarrow> string list list \<Rightarrow> nat" where
  "tally c s [] = 0"
| "tally c s (b # bs) =
     (case delete_objects c s b of
        (Inl e, s') \<Rightarrow> 0
      | (Inr r, s') \<Rightarrow> length (deleted_of r) + tally c s' bs)"

text \<open>
  The count the purge returns: the tally when no request raised or the one that did
  raised \<^verbatim>\<open>ClientError\<close>, and 0 after any other exception.
\<close>

definition purge_count :: "'s s3_client \<Rightarrow> 's \<Rightarrow> string list list \<Rightarrow> nat" where
  "purge_count c s bs =
     (case first_error c s bs of
        None \<Rightarrow> tally c s bs
      | Some e \<Rightarrow> if e = ClientError then tally c s bs else 0)"

definition answered :: "py_error + delete_response \<Rightarrow> bool" where
  "answered r = (case r of Inl e \<Rightarrow> False | Inr response \<Rightarrow> True)"

definition deleted_count :: "py_error + delete_response \<Rightarrow> nat" where
  "deleted_count r = (case r of Inl e \<Rightarrow> 0 | Inr response \<Rightarrow> length (deleted_of response))"

definition is_delete_call :: "call \<Rightarrow> bool" where
  "is_delete_call x = (case x of DeleteObjects b \<Rightarrow> True | DeleteObject k \<Rightarrow> True | _ \<Rightarrow> False)"

definition is_error_record :: "log_record \<Rightarrow> bool" where
  "is_error_record r = (fst r = ERROR)"

section \<open>Sample stores\<close>

text \<open>
  An in-memory store for the examples. Its state is the list of objects; a listing
  returns the objects under the prefix in pages of \<open>page_size\<close>, the continuation
  token standing for the offset of the next page; a delete removes the keys and
  reports each as deleted; a URL is the key behind a fixed host.
\<close>

definition fake_s3 :: "nat \<Rightarrow> (s3_object list) s3_client" where
  "fake_s3 page_size =
     \<lparr>list_objects_v2 = (\<lambda>s prefix tok.
        let matching = filter (\<lambda>obj. startswith (Key obj) prefix) s;
            offset = (case tok of None \<Rightarrow> 0 | Some t \<Rightarrow> length t);
            page = take page_size (drop offset matching);
            more = (offset + page_size < length matching)
        in Inr \<lparr>Contents = (if page = [] then None else Some page),
                 IsTruncated = more,
                 NextContinuationToken =
                   (if more then Some (replicate (offset + page_size) CHR ''x'') else None)\<rparr>),
      delete_objects = (\<lambda>s batch.
        (Inr \<lparr>Deleted = Some batch, Errors = None\<rparr>, filter (\<lambda>obj. Key obj \<notin> set batch) s)),
      delete_object = (\<lambda>s k. (Inr (), filter (\<lambda>obj. Key obj \<noteq> k) s)),
      generate_presigned_url = (\<lambda>k expiration. Inr (''https://bucket.example/'' @ k))\<rparr>"

text \<open>The same store when listing is refused, and when the bulk delete is refused.\<close>

definition no_listing_s3 :: "(s3_object list) s3_client" where
  "no_listing_s3 = (fake_s3 2)\<lparr>list_objects_v2 := (\<lambda>s prefix tok. Inl ClientError)\<rparr>"

text \<open>A store that answers the first page of a listing and refuses the next request.\<close>

definition flaky_s3 :: "(s3_object list) s3_client" where
  "flaky_s3 =
     (fake_s3 3)\<lparr>list_objects_v2 := (\<lambda>s prefix tok.
        case tok of None \<Rightarrow> list_objects_v2 (fake_s3 3) s prefix None
                  | Some t \<Rightarrow> Inl ClientError)\<rparr>"

text \<open>A store that ignores the continuation token and answers the first page again.\<close>

definition stuck_s3 :: "(s3_object list) s3_client" where
  "stuck_s3 =
     (fake_s3 3)\<lparr>list_objects_v2 := (\<lambda>s prefix tok. list_objects_v2 (fake_s3 3) s prefix None)\<rparr>"

definition no_bulk_delete_s3 :: "nat \<Rightarrow> (s3_object list) s3_client" where
  "no_bulk_delete_s3 page_size =
     (fake_s3 page_size)\<lparr>delete_objects := (\<lambda>s batch. (Inl ClientError, s))\<rparr>"

text \<open>
  The same store when one key cannot be deleted: the bulk delete answers, reports
  every other key of the batch as deleted, and \<^verbatim>\<open>notes.txt\<close> as an error.
\<close>

definition partial_errors_s3 :: "nat \<Rightarrow> (s3_object list) s3_client" where
  "partial_errors_s3 page_size =
     (fake_s3 page_size)\<lparr>delete_objects := (\<lambda>s batch.
        (Inr \<lparr>Deleted = Some (filter (\<lambda>k. k \<noteq> ''notes.txt'') batch),
              Errors = Some (map (\<lambda>k. (k, ''AccessDenied''))
                               (filter (\<lambda>k. k = ''notes.txt'') batch))\<rparr>,
         filter (\<lambda>obj. Key obj \<notin> set batch \<or> Key obj = ''notes.txt'') s))\<rparr>"

definition obj :: "string \<Rightarrow> int \<Rightarrow> s3_object" where
  "obj k t = \<lparr>Key = k, LastModified = t, Size = 1\<rparr>"

definition world0 :: "'s \<Rightarrow> 's world" where
  "world0 s = \<lparr>st = s, calls = [], logs = []\<rparr>"

text \<open>
  A bucket on 2024-06-10: two documents of that day, one of the day before, one of
  2024-06-07, one of 2024-06-06, a thumbnail, and a key that carries no date. The
  objects are as old as their names say (microseconds from 0001-01-01).
\<close>

definition sample_bucket :: "s3_object list" where
  "sample_bucket =
     [obj ''2024-06-06_newspaper.pdf'' (739042 * MICROS_PER_DAY),
      obj ''2024-06-07_newspaper.pdf'' (739043 * MICROS_PER_DAY),
      obj ''2024-06-09_newspaper.pdf'' (739045 * MICROS_PER_DAY),
      obj ''2024-06-10_newspaper.html'' (739046 * MICROS_PER_DAY),
      obj ''2024-06-10_newspaper.pdf'' (739046 * MICROS_PER_DAY),
      obj ''2024-06-10_thumbnail.jpg'' (739046 * MICROS_PER_DAY),
      obj ''notes.txt'' (739040 * MICROS_PER_DAY)]"

text \<open>The three pages in which \<open>fake_s3 3\<close> lists the sample bucket.\<close>

definition sample_pages :: "list_response list" where
  "sample_pages =
     [\<lparr>Contents = Some (take 3 sample_bucket), IsTruncated = True,
       NextContinuationToken = Some ''xxx''\<rparr>,
      \<lparr>Contents = Some (take 3 (drop 3 sample_bucket)), IsTruncated = True,
       NextContinuationToken = Some ''xxxxxx''\<rparr>,
      \<lparr>Contents = Some (drop 6 sample_bucket), IsTruncated = False,
       NextContinuationToken = None\<rparr>]"

text \<open>
  A bucket of 1001 objects, last modified on 2024-06-04, which \<open>fake_s3 1000\<close>
  lists in two pages.
\<close>

definition big_bucket :: "s3_object list" where
  "big_bucket =
     map (\<lambda>i. obj [char_of (48 + i div 1000), char_of (48 + i div 100 mod 10),
                    char_of (48 + i div 10 mod 10), char_of (48 + i mod 10)] (739040 * MICROS_PER_DAY))
       [0..<1001]"

definition big_pages :: "list_response list" where
  "big_pages =
     [\<lparr>Contents = Some (take 1000 big_bucket), IsTruncated = True,
       NextContinuationToken = Some (replicate 1000 CHR ''x'')\<rparr>,
      \<lparr>Contents = Some (drop 1000 big_bucket), IsTruncated = False,
       NextContinuationToken = None\<rparr>]"

text \<open>
  A bucket of 2500 objects, last modified on 2024-06-04, listed in three pages of
  1000, 1000 and 500.
\<close>

definition large_bucket :: "s3_object list" where
  "large_bucket =
     map (\<lambda>i. obj [char_of (48 + i div 1000), char_of (48 + i div 100 mod 10),
                    char_of (48 + i div 10 mod 10), char_of (48 + i mod 10)] (739040 * MICROS_PER_DAY))
       [0..<2500]"

definition large_pages :: "list_response list" where
  "large_pages =
     [\<lparr>Contents = Some (take 1000 large_bucket), IsTruncated = True,
       NextContinuationToken = Some (replicate 1000 CHR ''x'')\<rparr>,
      \<lparr>Contents = Some (take 1000 (drop 1000 large_bucket)), IsTruncated = True,
       NextContinuationToken = Some (replicate 2000 CHR ''x'')\<rparr>,
      \<lparr>Contents = Some (drop 2000 large_bucket), IsTruncated = False,
       NextContinuationToken = None\<rparr>]"

text \<open>
  A store whose state also counts the bulk delete requests it has received, so that
  its answer to a batch can depend on how many came before: \<open>answer n batch\<close> is what
  the request number \<open>n\<close> (from 0) gets; the keys it reports as deleted leave the store.
  It lists like \<open>fake_s3\<close>.
\<close>

definition counting_s3 ::
  "nat \<Rightarrow> (nat \<Rightarrow> string list \<Rightarrow> py_error + delete_response)
    \<Rightarrow> (s3_object list \<times> nat) s3_client" where
  "counting_s3 page_size answer =
     \<lparr>list_objects_v2 = (\<lambda>s. list_objects_v2 (fake_s3 page_size) (fst s)),
      delete_objects = (\<lambda>s batch.
        case answer (snd s) batch of
          Inl e \<Rightarrow> (Inl e, (fst s, Suc (snd s)))
        | Inr r \<Rightarrow>
            (Inr r, (filter (\<lambda>obj. Key obj \<notin> set (deleted_of r)) (fst s), Suc (snd s)))),
      delete_object = (\<lambda>s k. (Inr (), (filter (\<lambda>obj. Key obj \<noteq> k) (fst s), snd s))),
      generate_presigned_url = (\<lambda>k expiration. Inr (''https://bucket.example/'' @ k))\<rparr>"


text \<open>A store whose second bulk delete request raises \<^verbatim>\<open>ClientError\<close>.\<close>

definition outage_s3 :: "(s3_object list \<times> nat) s3_client" where
  "outage_s3 =
     counting_s3 1000 (\<lambda>n batch.
       if n = 1 then Inl ClientError else Inr \<lparr>Deleted = Some batch, Errors = None\<rparr>)"

section \<open>Proofs\<close>

subsection \<open>The world\<close>

lemma st_emit [simp]: "st (emit lv m as w) = st w"
  and calls_emit [simp]: "calls (emit lv m as w) = calls w"
  and logs_emit [simp]: "logs (emit lv m as w) = logs w @ [(lv, m, as)]"
  by (simp_all add: emit_def)

lemma st_emit_all [simp]: "st (emit_all rs w) = st w"
  and calls_emit_all [simp]: "calls (emit_all rs w) = calls w"
  and logs_emit_all [simp]: "logs (emit_all rs w) = logs w @ rs"
  by (simp_all add: emit_all_def)

lemma st_invoke [simp]: "st (invoke c w) = st w"
  and calls_invoke [simp]: "calls (invoke c w) = calls w @ [c]"
  and logs_invoke [simp]: "logs (invoke c w) = logs w"
  by (simp_all add: invoke_def)

subsection \<open>Listing touches nothing\<close>

lemma list_more_frame_aux:
  assumes "list_more c response files w = Some y"
  shows "st (snd y) = st w
         \<and> (\<exists>cs. calls (snd y) = calls w @ cs \<and> (\<forall>x \<in> set cs. is_list_call x))"
  using assms
proof (induction c response files w y rule: list_more.raw_induct [rotated 1, consumes 1])
  case (1 lm c response files w y)
  show ?case
  proof (cases "IsTruncated response")
    case False
    then show ?thesis using 1(2) by auto
  next
    case True
    show ?thesis
    proof (cases "NextContinuationToken response")
      case None
      then show ?thesis using 1(2) True by auto
    next
      case (Some tok)
      show ?thesis
      proof (cases "list_objects_v2 c (st w) [] (Some tok)")
        case (Inl e)
        then show ?thesis using 1(2) True Some by (auto simp: is_list_call_def)
      next
        case (Inr response')
        show ?thesis
        proof (cases "Contents response'")
          case None
          then show ?thesis using 1(2) True Some Inr by (auto simp: is_list_call_def)
        next
          case (Some objs)
          with 1(2) True \<open>NextContinuationToken response = Some tok\<close> Inr
          have "lm c response' (files @ map Key objs)
                       (emit INFO ''Retrieved additional %d files from paginated response.''
                          [I (int (length objs))]
                          (invoke (ListObjectsV2 [] (Some tok)) w)) = Some y" by simp
          from 1(1) [OF this] obtain cs where
            "st (snd y) = st w" "calls (snd y) = calls w @ ListObjectsV2 [] (Some tok) # cs"
            "\<forall>x \<in> set cs. is_list_call x" by auto
          then show ?thesis
            by (intro conjI exI [of _ "ListObjectsV2 [] (Some tok) # cs"])
               (auto simp: is_list_call_def)
        qed
      qed
    qed
  qed
qed

lemma list_more_frame:
  assumes "list_more c response files w = Some (r, w1)"
  shows "st w1 = st w \<and> (\<exists>cs. calls w1 = calls w @ cs \<and> (\<forall>x \<in> set cs. is_list_call x))"
  using list_more_frame_aux [OF assms] by simp

lemma list_storage_files_frame:
  assumes "list_storage_files client w = Some (r, w1)"
  shows "st w1 = st w \<and> (\<exists>cs. calls w1 = calls w @ cs \<and> (\<forall>x \<in> set cs. is_list_call x))"
proof (cases client)
  case None
  then show ?thesis using assms by (auto simp: list_storage_files_def)
next
  case (Some c)
  show ?thesis
  proof (cases "list_objects_v2 c (st w) [] None")
    case (Inl e)
    then show ?thesis using assms Some
      by (auto simp: list_storage_files_def list_failed_def is_list_call_def Let_def
               split: if_splits)
  next
    case (Inr response)
    show ?thesis
    proof (cases "Contents response")
      case None
      then show ?thesis using assms Some Inr
        by (auto simp: list_storage_files_def is_list_call_def Let_def)
    next
      case (Some objs)
      let ?w0 = "emit INFO ''Found %d files in storage.'' [I (int (length objs))]
                   (invoke (ListObjectsV2 [] None) (emit INFO ''Listing files in s3://%s'' [] w))"
      from assms \<open>client = Some c\<close> Inr Some
      obtain r' w2 where lm: "list_more c response (map Key objs) ?w0 = Some (r', w2)"
        and w1: "st w1 = st w2 \<and> calls w1 = calls w2"
        by (auto simp: list_storage_files_def Let_def list_failed_def split: option.splits sum.splits)
      from list_more_frame [OF lm] obtain cs where
        "st w2 = st w" "calls w2 = calls w @ ListObjectsV2 [] None # cs"
        "\<forall>x \<in> set cs. is_list_call x" by auto
      then show ?thesis using w1
        by (intro conjI exI [of _ "ListObjectsV2 [] None # cs"]) (auto simp: is_list_call_def)
    qed
  qed
qed

subsection \<open>Listing a store that serves pages\<close>

lemma keys_of_Cons: "keys_of (p # ps) = map Key (contents_of p) @ keys_of ps"
  by (simp add: keys_of_def)

lemma keys_of_Nil [simp]: "keys_of [] = []"
  by (simp add: keys_of_def)

lemma list_more_serves:
  assumes "if rest = [] then \<not> IsTruncated response
           else IsTruncated response \<and> NextContinuationToken response \<noteq> None
                \<and> serves c (st w) [] (NextContinuationToken response) rest"
    and "\<forall>p \<in> set rest. Contents p \<noteq> None"
  shows "\<exists>w1. list_more c response files w = Some (Inr (files @ keys_of rest), w1)
              \<and> st w1 = st w
              \<and> calls w1 = calls w @ map (ListObjectsV2 [])
                                       (map NextContinuationToken (butlast (response # rest)))"
  using assms
proof (induction rest arbitrary: response files w)
  case Nil
  then show ?case by (subst list_more.simps) simp
next
  case (Cons page rest)
  from Cons.prems obtain tok objs where
    t: "IsTruncated response" "NextContinuationToken response = Some tok"
    and l: "list_objects_v2 c (st w) [] (Some tok) = Inr page"
    and c: "Contents page = Some objs"
    and nx: "if rest = [] then \<not> IsTruncated page
             else IsTruncated page \<and> NextContinuationToken page \<noteq> None
                  \<and> serves c (st w) [] (NextContinuationToken page) rest"
    by auto
  let ?w = "emit INFO ''Retrieved additional %d files from paginated response.''
              [I (int (length objs))] (invoke (ListObjectsV2 [] (Some tok)) w)"
  have "\<exists>w1. list_more c page ((files @ map Key objs)) ?w
               = Some (Inr ((files @ map Key objs) @ keys_of rest), w1)
              \<and> st w1 = st ?w
              \<and> calls w1 = calls ?w @ map (ListObjectsV2 [])
                                       (map NextContinuationToken (butlast (page # rest)))"
    by (rule Cons.IH) (use nx Cons.prems in auto)
  then obtain w1 where
    "list_more c page ((files @ map Key objs)) ?w
               = Some (Inr ((files @ map Key objs) @ keys_of rest), w1)"
    "st w1 = st w"
    "calls w1 = calls w @ ListObjectsV2 [] (Some tok) # map (ListObjectsV2 [])
                                       (map NextContinuationToken (butlast (page # rest)))"
    by auto
  then show ?case using t l c
    by (subst list_more.simps) (simp add: keys_of_Cons contents_of_def)
qed

lemma list_storage_files_serves:
  assumes "serves c (st w) [] None pages" and "\<forall>p \<in> set pages. Contents p \<noteq> None"
  shows "\<exists>w1. list_storage_files (Some c) w = Some (Some (keys_of pages), w1)
              \<and> st w1 = st w \<and> calls w1 = calls w @ page_calls [] None pages"
proof (cases pages)
  case Nil
  then show ?thesis using assms by simp
next
  case (Cons page rest)
  from assms Cons obtain objs where
    l: "list_objects_v2 c (st w) [] None = Inr page" and c: "Contents page = Some objs"
    and nx: "if rest = [] then \<not> IsTruncated page
             else IsTruncated page \<and> NextContinuationToken page \<noteq> None
                  \<and> serves c (st w) [] (NextContinuationToken page) rest"
    and cr: "\<forall>p \<in> set rest. Contents p \<noteq> None"
    by auto
  let ?w = "emit INFO ''Found %d files in storage.'' [I (int (length objs))]
              (invoke (ListObjectsV2 [] None) (emit INFO ''Listing files in s3://%s'' [] w))"
  have "st ?w = st w" by simp
  with nx have nx': "if rest = [] then \<not> IsTruncated page
             else IsTruncated page \<and> NextContinuationToken page \<noteq> None
                  \<and> serves c (st ?w) [] (NextContinuationToken page) rest" by simp
  from list_more_serves [OF nx' cr, of "map Key objs"] obtain w1 where
    "list_more c page (map Key objs) ?w = Some (Inr (map Key objs @ keys_of rest), w1)"
    "st w1 = st w"
    "calls w1 = calls w @ ListObjectsV2 [] None # map (ListObjectsV2 [])
                                       (map NextContinuationToken (butlast (page # rest)))"
    by auto
  then show ?thesis using l c Cons
    by (simp add: list_storage_files_def Let_def keys_of_Cons contents_of_def page_calls_def)
qed

subsection \<open>Sorting\<close>

lemma length_insort_rev [simp]: "length (insort_rev f x xs) = Suc (length xs)"
  by (induction xs) auto

lemma length_sort_rev [simp]: "length (sort_rev f xs) = length xs"
  by (induction xs) (auto simp: sort_rev_def)

lemma set_insort_rev [simp]: "set (insort_rev f x xs) = insert x (set xs)"
  by (induction xs) auto

lemma set_sort_rev [simp]: "set (sort_rev f xs) = set xs"
  by (induction xs) (auto simp: sort_rev_def)

lemma filter_insort_rev:
  "length (filter P (insort_rev f x xs)) = length (filter P (x # xs))"
  by (induction xs) auto

lemma length_filter_sort_rev [simp]:
  "length (filter P (sort_rev f xs)) = length (filter P xs)"
  by (induction xs) (auto simp: sort_rev_def filter_insort_rev)

subsection \<open>The loops of get_past_papers_from_storage\<close>

lemma dated_files_loop_fst:
  "fst (dated_files_loop cfg files acc w) = acc @ dated_of cfg files"
  by (induction files arbitrary: acc w)
     (auto simp: dated_of_def List.map_filter_simps split: option.splits)

lemma dated_files_loop_frame:
  "st (snd (dated_files_loop cfg files acc w)) = st w
   \<and> calls (snd (dated_files_loop cfg files acc w)) = calls w"
  by (induction files arbitrary: acc w) (auto split: option.splits)

lemma set_dated_of:
  "set (dated_of cfg files) =
     {(d, k). k \<in> set files \<and> strptime cfg (date_str_of k) = Some d \<and> is_newspaper k}"
  by (induction files)
     (auto simp: dated_of_def List.map_filter_simps split: option.splits if_splits)

lemma fst_get_file_url: "fst (get_file_url client k w) = url_of client k"
  by (auto simp: get_file_url_def generate_presigned_url_for_def url_of_def Let_def
           split: sum.splits option.splits)

lemma ask_url_frame:
  "calls (ask_url client k w) = calls w @ url_calls client k"
  "st (ask_url client k w) = st w"
  by (auto simp: ask_url_def get_file_url_def generate_presigned_url_for_def url_calls_def Let_def
           split: sum.splits option.splits)

lemma links_loop_Cons:
  "links_loop cfg client target cutoff days (x # rest) links w =
     (if in_window cutoff target x
      then (if int (length (case link_of cfg client x of None \<Rightarrow> links | Some l \<Rightarrow> links @ [l])) \<ge> days
            then ((case link_of cfg client x of None \<Rightarrow> links | Some l \<Rightarrow> links @ [l]),
                  ask_url client (snd x) w)
            else links_loop cfg client target cutoff days rest
                   (case link_of cfg client x of None \<Rightarrow> links | Some l \<Rightarrow> links @ [l])
                   (ask_url client (snd x) w))
      else (if int (length links) \<ge> days then (links, w)
            else links_loop cfg client target cutoff days rest links w))"
proof -
  obtain d k where x: "x = (d, k)" by (cases x)
  obtain u w1 where g: "get_file_url client k w = (u, w1)" by (cases "get_file_url client k w")
  have u: "u = url_of client k" using fst_get_file_url [of client k w] g by simp
  show ?thesis
    unfolding x
    by (cases u) (auto simp: g u [symmetric] in_window_def link_of_def ask_url_def)
qed

lemma links_loop_length:
  "int (length links) < days \<or> target < cutoff \<Longrightarrow>
   length (fst (links_loop cfg client target cutoff days dated links w))
     \<le> max (length links) (nat days)"
proof (induction dated arbitrary: links w)
  case Nil
  then show ?case by simp
next
  case (Cons x dated)
  show ?case
  proof (cases "in_window cutoff target x")
    case False
    then show ?thesis using Cons.prems Cons.IH [of links w]
      by (simp only: links_loop_Cons if_False) auto
  next
    case True
    then have lt: "int (length links) < days" using Cons.prems by (auto simp: in_window_def)
    show ?thesis
    proof (cases "link_of cfg client x")
      case None
      then show ?thesis using True lt Cons.IH [of links "ask_url client (snd x) w"]
        by (simp only: links_loop_Cons) auto
    next
      case (Some l)
      show ?thesis
      proof (cases "int (length links) + 1 \<ge> days")
        case True
        then show ?thesis using \<open>in_window cutoff target x\<close> lt Some
          by (simp only: links_loop_Cons) auto
      next
        case False
        then have "int (length (links @ [l])) < days" by simp
        from Cons.IH [OF disjI1, OF this, of "ask_url client (snd x) w"]
        show ?thesis using \<open>in_window cutoff target x\<close> False Some
          by (simp only: links_loop_Cons) auto
      qed
    qed
  qed
qed

lemma links_loop_calls:
  "\<exists>n. calls (snd (links_loop cfg client target cutoff days dated links w))
         = calls w @ concat (map (\<lambda>x. url_calls client (snd x)) (filter (in_window cutoff target) (take n dated)))"
proof (induction dated arbitrary: links w)
  case Nil
  then show ?case by simp
next
  case (Cons x dated)
  obtain k d where x: "x = (d, k)" by (cases x)
  let ?links1 = "case link_of cfg client x of None \<Rightarrow> links | Some l \<Rightarrow> links @ [l]"
  show ?case
  proof (cases "in_window cutoff target x")
    case False
    show ?thesis
    proof (cases "int (length links) \<ge> days")
      case True
      then show ?thesis using False by (intro exI [of _ 0]) (simp add: links_loop_Cons)
    next
      case nb: False
      from Cons.IH [of links w] obtain n where
        "calls (snd (links_loop cfg client target cutoff days dated links w))
           = calls w @ concat (map (\<lambda>x. url_calls client (snd x)) (filter (in_window cutoff target) (take n dated)))"
        by blast
      then show ?thesis using False nb by (intro exI [of _ "Suc n"]) (simp add: links_loop_Cons)
    qed
  next
    case True
    show ?thesis
    proof (cases "int (length ?links1) \<ge> days")
      case br: True
      then show ?thesis using True x
        by (intro exI [of _ "Suc 0"]) (simp add: links_loop_Cons ask_url_frame)
    next
      case nb: False
      from Cons.IH [of ?links1 "ask_url client (snd x) w"] obtain n where
        "calls (snd (links_loop cfg client target cutoff days dated ?links1 (ask_url client (snd x) w)))
           = calls (ask_url client (snd x) w)
             @ concat (map (\<lambda>x. url_calls client (snd x)) (filter (in_window cutoff target) (take n dated)))"
        by blast
      then show ?thesis using True nb x
        by (intro exI [of _ "Suc n"]) (simp add: links_loop_Cons ask_url_frame)
    qed
  qed
qed

lemma links_loop_st: "st (snd (links_loop cfg client target cutoff days dated links w)) = st w"
  by (induction dated arbitrary: links w) (simp_all add: links_loop_Cons ask_url_frame del: links_loop.simps(2))

lemma links_loop_take:
  "int (length links) < days \<or> target < cutoff \<Longrightarrow>
   fst (links_loop cfg client target cutoff days dated links w)
     = links @ take (nat days - length links)
                 (List.map_filter (link_of cfg client) (filter (in_window cutoff target) dated))"
proof (induction dated arbitrary: links w)
  case Nil
  then show ?case by (simp add: List.map_filter_simps)
next
  case (Cons x dated)
  show ?case
  proof (cases "in_window cutoff target x")
    case False
    then show ?thesis using Cons.prems Cons.IH [of links w]
      by (simp only: links_loop_Cons if_False) (auto simp: List.map_filter_simps in_window_def)
  next
    case True
    then have lt: "int (length links) < days" using Cons.prems by (auto simp: in_window_def)
    show ?thesis
    proof (cases "link_of cfg client x")
      case None
      then show ?thesis using True lt Cons.IH [of links "ask_url client (snd x) w"]
        by (simp only: links_loop_Cons) (auto simp: List.map_filter_simps)
    next
      case (Some l)
      show ?thesis
      proof (cases "int (length links) + 1 \<ge> days")
        case True
        then have one: "nat days - length links = Suc 0" using lt by linarith
        show ?thesis using \<open>in_window cutoff target x\<close> lt Some True
          by (simp only: links_loop_Cons) (simp add: List.map_filter_simps one)
      next
        case False
        then have lt': "int (length (links @ [l])) < days" by simp
        have suc: "nat days - length links = Suc (nat days - length (links @ [l]))"
          using False by simp
        from Cons.IH [OF disjI1, OF lt', of "ask_url client (snd x) w"]
        show ?thesis using \<open>in_window cutoff target x\<close> False Some
          by (simp only: links_loop_Cons) (simp add: List.map_filter_simps suc del: length_append)
      qed
    qed
  qed
qed

lemma links_loop_all_calls:
  "int (length links) + int (length (filter (in_window cutoff target) dated)) \<le> days \<Longrightarrow>
   calls (snd (links_loop cfg client target cutoff days dated links w))
     = calls w @ concat (map (\<lambda>x. url_calls client (snd x)) (filter (in_window cutoff target) dated))"
proof (induction dated arbitrary: links w)
  case Nil
  then show ?case by simp
next
  case (Cons x dated)
  let ?links1 = "case link_of cfg client x of None \<Rightarrow> links | Some l \<Rightarrow> links @ [l]"
  have len1: "length ?links1 \<le> Suc (length links)" by (simp split: option.splits)
  show ?case
  proof (cases "in_window cutoff target x")
    case False
    show ?thesis
    proof (cases "int (length links) \<ge> days")
      case True
      have "int (length links) + int (length (filter (in_window cutoff target) dated)) \<le> days"
        using Cons.prems False by simp
      then have "length (filter (in_window cutoff target) dated) = 0" using True by linarith
      then have "filter (in_window cutoff target) dated = []" by simp
      then show ?thesis using False True by (simp add: links_loop_Cons)
    next
      case nb: False
      then show ?thesis using Cons.IH [of links w] Cons.prems False by (simp add: links_loop_Cons)
    qed
  next
    case True
    have inv: "int (length ?links1) + int (length (filter (in_window cutoff target) dated)) \<le> days"
      using Cons.prems True len1 by simp
    show ?thesis
    proof (cases "int (length ?links1) \<ge> days")
      case br: True
      then have "length (filter (in_window cutoff target) dated) = 0" using inv by linarith
      then have "filter (in_window cutoff target) dated = []" by simp
      then show ?thesis using True br by (simp add: links_loop_Cons ask_url_frame)
    next
      case nb: False
      then show ?thesis using Cons.IH [OF inv, of "ask_url client (snd x) w"] True
        by (simp add: links_loop_Cons ask_url_frame)
    qed
  qed
qed

lemma new_calls_append [simp]: "calls w' = calls w @ cs \<Longrightarrow> new_calls w w' = cs"
  by (simp add: new_calls_def)

lemma cutoff_window:
  "date_minus_days target (days - 1) = Inr cutoff \<Longrightarrow> cutoff = target - (days - 1)"
  by (auto simp: date_minus_days_def split: if_splits)

lemma get_past_papers_run:
  assumes run: "get_past_papers_from_storage cfg client target days_arg w = Some (links, w')"
  defines "days \<equiv> (case days_arg of None \<Rightarrow> RETENTION_DAYS cfg | Some d \<Rightarrow> d)"
  shows "st w' = st w \<and>
         (\<exists>cs. (\<forall>x \<in> set cs. is_list_call x) \<and>
            ((links = [] \<and> calls w' = calls w @ cs) \<or>
             (\<exists>files w2.
                files \<noteq> [] \<and>
                (\<exists>w0 w1. list_storage_files client w0 = Some (Some files, w1) \<and> st w0 = st w) \<and>
                calls w2 = calls w @ cs \<and> st w2 = st w \<and>
                links = sort_rev fst (fst (links_loop cfg client target (target - (days - 1)) days
                                        (sort_rev fst (dated_of cfg files)) [] w2)) \<and>
                calls w' = calls (snd (links_loop cfg client target (target - (days - 1)) days
                                        (sort_rev fst (dated_of cfg files)) [] w2)))))"
proof -
  define w0 where "w0 = emit INFO ''Retrieving past %d paper links from storage up to %s.''
                [I days, S (strftime cfg target)] w"
  from run obtain all_files w1 where ls: "list_storage_files client w0 = Some (all_files, w1)"
    unfolding get_past_papers_from_storage_def w0_def days_def Let_def
    by (auto split: option.splits)
  from list_storage_files_frame [OF ls] obtain cs where
    f1: "st w1 = st w" "calls w1 = calls w @ cs" "\<forall>x \<in> set cs. is_list_call x"
    by (auto simp: w0_def)
  show ?thesis
  proof (cases "all_files = None \<or> all_files = Some []")
    case True
    then have "links = []" "w' = emit WARNING ''No files found in cloud storage.'' [] w1"
      using run ls unfolding get_past_papers_from_storage_def w0_def days_def Let_def
      by auto
    then show ?thesis using f1 by auto
  next
    case False
    then obtain files where files: "all_files = Some files" "files \<noteq> []" by auto
    define w2 where "w2 = snd (dated_files_loop cfg files []
                    (emit INFO ''Found %d files in storage. Filtering for the last %d days.''
                       [I (int (length files)), I days] w1))"
    have dl: "dated_files_loop cfg files []
                    (emit INFO ''Found %d files in storage. Filtering for the last %d days.''
                       [I (int (length files)), I days] w1) = (dated_of cfg files, w2)"
      using dated_files_loop_fst [of cfg files "[]"] unfolding w2_def
      by (metis append_Nil prod.collapse)
    have f2: "st w2 = st w" "calls w2 = calls w @ cs"
      using f1 unfolding w2_def by (simp_all add: dated_files_loop_frame)
    show ?thesis
    proof (cases "date_minus_days target (days - 1)")
      case (Inl e)
      then have "links = []" "w' = emit ERROR ''Error retrieving past papers from storage: %s'' [E e] w2"
        using run ls files dl unfolding get_past_papers_from_storage_def w0_def days_def Let_def
        by auto
      then show ?thesis using f2 f1 by auto
    next
      case (Inr cutoff)
      then have c: "cutoff = target - (days - 1)" by (rule cutoff_window)
      obtain pl w3 where ll: "links_loop cfg client target cutoff days
                              (sort_rev fst (dated_of cfg files)) [] w2 = (pl, w3)"
        by (cases "links_loop cfg client target cutoff days (sort_rev fst (dated_of cfg files)) [] w2")
      have "links = sort_rev fst pl" "calls w' = calls w3" "st w' = st w3"
        using run ls files dl Inr ll
        unfolding get_past_papers_from_storage_def w0_def days_def Let_def
        by auto
      moreover have "st w3 = st w"
        using links_loop_st [of cfg client target cutoff days "sort_rev fst (dated_of cfg files)" "[]" w2]
          ll f2
        by simp
      ultimately show ?thesis using f1 f2 files ls ll c w0_def
        apply (intro conjI)
         apply simp
        apply (rule exI [of _ cs])
        apply (intro conjI)
         apply simp
        apply (rule disjI2)
        apply (rule exI [of _ files])
        apply (rule exI [of _ w2])
        apply auto
        done
    qed
  qed
qed

lemma get_past_papers_serves:
  fixes days_arg cfg
  defines "days \<equiv> (case days_arg of None \<Rightarrow> RETENTION_DAYS cfg | Some d \<Rightarrow> d)"
  assumes sv: "serves c (st w) [] None pages" "\<forall>p \<in> set pages. Contents p \<noteq> None"
    and ne: "keys_of pages \<noteq> []"
    and cut: "date_minus_days target (days - 1) = Inr cutoff"
  shows "\<exists>w'. get_past_papers_from_storage cfg (Some c) target days_arg w
               = Some (sort_rev fst (take (nat days)
                         (List.map_filter (link_of cfg (Some c))
                            (recent_documents cfg cutoff target (keys_of pages)))), w')
             \<and> st w' = st w
             \<and> (\<exists>n. new_calls w w'
                   = page_calls [] None pages
                     @ map (\<lambda>x. GeneratePresignedUrl (snd x) 3600)
                         (filter (in_window cutoff target)
                            (take n (sort_rev fst (dated_of cfg (keys_of pages))))))
             \<and> (int (length (recent_documents cfg cutoff target (keys_of pages))) \<le> days
                \<longrightarrow> new_calls w w'
                   = page_calls [] None pages
                     @ map (\<lambda>x. GeneratePresignedUrl (snd x) 3600)
                         (recent_documents cfg cutoff target (keys_of pages)))"
proof -
  define w0 where "w0 = emit INFO ''Retrieving past %d paper links from storage up to %s.''
                [I days, S (strftime cfg target)] w"
  have "serves c (st w0) [] None pages" using sv by (simp add: w0_def)
  from list_storage_files_serves [OF this sv(2)] obtain w1 where
    ls: "list_storage_files (Some c) w0 = Some (Some (keys_of pages), w1)"
    and f1: "st w1 = st w" "calls w1 = calls w @ page_calls [] None pages"
    by (auto simp: w0_def)
  define files where "files = keys_of pages"
  define w2 where "w2 = snd (dated_files_loop cfg files []
                    (emit INFO ''Found %d files in storage. Filtering for the last %d days.''
                       [I (int (length files)), I days] w1))"
  have dl: "dated_files_loop cfg files []
                    (emit INFO ''Found %d files in storage. Filtering for the last %d days.''
                       [I (int (length files)), I days] w1) = (dated_of cfg files, w2)"
    using dated_files_loop_fst [of cfg files "[]"] unfolding w2_def
    by (metis append_Nil prod.collapse)
  have f2: "st w2 = st w" "calls w2 = calls w @ page_calls [] None pages"
    using f1 unfolding w2_def by (simp_all add: dated_files_loop_frame)
  have c: "cutoff = target - (days - 1)" using cut by (rule cutoff_window)
  define sorted where "sorted = sort_rev fst (dated_of cfg files)"
  obtain pl w3 where ll: "links_loop cfg (Some c) target cutoff days sorted [] w2 = (pl, w3)"
    by (cases "links_loop cfg (Some c) target cutoff days sorted [] w2")
  have pre: "int (length ([] :: (string \<times> string) list)) < days \<or> target < cutoff"
    using c by auto
  have pl: "pl = take (nat days) (List.map_filter (link_of cfg (Some c))
                                   (filter (in_window cutoff target) sorted))"
    using links_loop_take [OF pre, of cfg "Some c" sorted w2] ll by simp
  have st3: "st w3 = st w"
    using links_loop_st [of cfg "Some c" target cutoff days sorted "[]" w2] ll f2 by simp
  have uc: "\<And>xs. concat (map (\<lambda>x. url_calls (Some c) (snd x)) xs)
                 = map (\<lambda>x. GeneratePresignedUrl (snd x) 3600) xs"
    by (induct_tac xs) (simp_all add: url_calls_def)
  from links_loop_calls [of cfg "Some c" target cutoff days sorted "[]" w2] ll
  obtain n where c3: "calls w3 = calls w2 @ map (\<lambda>x. GeneratePresignedUrl (snd x) 3600)
                                           (filter (in_window cutoff target) (take n sorted))"
    by (auto simp: uc)
  have c3': "int (length (filter (in_window cutoff target) sorted)) \<le> days \<Longrightarrow>
             calls w3 = calls w2 @ map (\<lambda>x. GeneratePresignedUrl (snd x) 3600)
                                           (filter (in_window cutoff target) sorted)"
    using links_loop_all_calls [of "[]" cutoff target sorted days cfg "Some c" w2] ll
    by (simp add: uc)
  have run: "get_past_papers_from_storage cfg (Some c) target days_arg w
        = Some (sort_rev fst pl,
                emit INFO ''Collected %d past paper links from storage.'' [I (int (length pl))] w3)"
    using ls ne dl cut ll [unfolded sorted_def]
    unfolding get_past_papers_from_storage_def w0_def [symmetric] days_def [symmetric] Let_def
      files_def [symmetric]
    by simp
  show ?thesis
    unfolding run recent_documents_def files_def [symmetric] sorted_def [symmetric]
    apply (rule exI [of _ "emit INFO ''Collected %d past paper links from storage.'' [I (int (length pl))] w3"])
    apply (intro conjI)
       apply (simp add: pl)
      apply (simp add: st3)
     apply (rule exI [of _ n])
     apply (simp add: c3 f2 new_calls_def)
    apply (rule impI)
    apply (simp add: c3' f2 new_calls_def)
    done
qed

subsection \<open>The cap on the links\<close>

lemma sample_pages_served:
  "serves (fake_s3 3) sample_bucket [] None sample_pages
   \<and> (\<forall>p \<in> set sample_pages. Contents p \<noteq> None) \<and> keys_of sample_pages \<noteq> []"
  by code_simp

text \<open>
  C10. The links \<^verbatim>\<open>get_past_papers_from_storage\<close> returns are at most
  \<open>days\<close> in number, whatever the store holds. When the store serves its listing,
  they are the first \<open>days\<close> links of the documents in the window, most recent
  first: the loop stops once \<open>days\<close> links are gathered, and it counts links, so
  two documents of one date take two places.
\<close>

theorem past_papers_at_most_days:
  assumes "get_past_papers_from_storage cfg client target days_arg w = Some (links, w')"
  shows "length links \<le> nat (case days_arg of None \<Rightarrow> RETENTION_DAYS cfg | Some d \<Rightarrow> d)
         \<and> (\<forall>c pages cutoff.
               client = Some c \<and> serves c (st w) [] None pages
               \<and> (\<forall>p \<in> set pages. Contents p \<noteq> None) \<and> keys_of pages \<noteq> []
               \<and> date_minus_days target
                    ((case days_arg of None \<Rightarrow> RETENTION_DAYS cfg | Some d \<Rightarrow> d) - 1) = Inr cutoff
               \<longrightarrow> links = sort_rev fst
                     (take (nat (case days_arg of None \<Rightarrow> RETENTION_DAYS cfg | Some d \<Rightarrow> d))
                        (List.map_filter (link_of cfg client)
                           (recent_documents cfg cutoff target (keys_of pages)))))"
proof -
  define days where "days = (case days_arg of None \<Rightarrow> RETENTION_DAYS cfg | Some d \<Rightarrow> d)"
  have len: "length links \<le> nat days"
  proof -
    from get_past_papers_run [OF assms] consider "links = []"
      | files w2 where "links = sort_rev fst (fst (links_loop cfg client target (target - (days - 1)) days
                                        (sort_rev fst (dated_of cfg files)) [] w2))"
      unfolding days_def by blast
    then show ?thesis
    proof cases
      case 1
      then show ?thesis by simp
    next
      case 2
      have pre: "int (length ([] :: (string \<times> string) list)) < days \<or> target < target - (days - 1)"
        by auto
      from links_loop_length [OF pre] show ?thesis unfolding 2 by simp
    qed
  qed
  have eq: "links = sort_rev fst (take (nat days)
                        (List.map_filter (link_of cfg client)
                           (recent_documents cfg cutoff target (keys_of pages))))"
    if "client = Some c" "serves c (st w) [] None pages" "\<forall>p \<in> set pages. Contents p \<noteq> None"
       "keys_of pages \<noteq> []" "date_minus_days target (days - 1) = Inr cutoff"
    for c pages cutoff
    using get_past_papers_serves [where cfg = cfg and days_arg = days_arg and target = target
        and cutoff = cutoff, OF that(2,3,4)] that(1,5) assms
    unfolding days_def by auto
  show ?thesis using len eq unfolding days_def by blast
qed

theorem past_papers_at_most_days_witness:
  "\<exists>w'. get_past_papers_from_storage default_config (Some (fake_s3 3)) (ymd2ord 2024 6 10)
           (Some 2) (world0 sample_bucket)
         = Some ([(''2024-06-10'', ''https://bucket.example/2024-06-10_newspaper.html''),
                  (''2024-06-10'', ''https://bucket.example/2024-06-10_newspaper.pdf'')], w')
       \<and> length [(''2024-06-10'', ''https://bucket.example/2024-06-10_newspaper.html''),
                 (''2024-06-10'', ''https://bucket.example/2024-06-10_newspaper.pdf'')] \<le> nat 2
       \<and> [(''2024-06-10'', ''https://bucket.example/2024-06-10_newspaper.html''),
          (''2024-06-10'', ''https://bucket.example/2024-06-10_newspaper.pdf'')]
         = sort_rev fst
             (take (nat 2)
                (List.map_filter (link_of default_config (Some (fake_s3 3)))
                   (recent_documents default_config (ymd2ord 2024 6 9) (ymd2ord 2024 6 10)
                      (keys_of sample_pages))))"
proof -
  let ?run = "get_past_papers_from_storage default_config (Some (fake_s3 3)) (ymd2ord 2024 6 10)
           (Some 2) (world0 sample_bucket)"
  let ?links = "[(''2024-06-10'', ''https://bucket.example/2024-06-10_newspaper.html''),
                  (''2024-06-10'', ''https://bucket.example/2024-06-10_newspaper.pdf'')]"
  have "map_option fst ?run = Some ?links" by code_simp
  then obtain w' where run: "?run = Some (?links, w')" by (cases ?run) auto
  have cut: "date_minus_days (ymd2ord 2024 6 10) ((case Some 2 of None \<Rightarrow> RETENTION_DAYS default_config | Some d \<Rightarrow> d) - 1)
             = Inr (ymd2ord 2024 6 9)" by code_simp
  have sv: "serves (fake_s3 3) (st (world0 sample_bucket)) [] None sample_pages
   \<and> (\<forall>p \<in> set sample_pages. Contents p \<noteq> None) \<and> keys_of sample_pages \<noteq> []"
    using sample_pages_served by (simp add: world0_def)
  from past_papers_at_most_days [OF run] sv cut
  have "length ?links \<le> nat 2
        \<and> ?links = sort_rev fst
             (take (nat 2)
                (List.map_filter (link_of default_config (Some (fake_s3 3)))
                   (recent_documents default_config (ymd2ord 2024 6 9) (ymd2ord 2024 6 10)
                      (keys_of sample_pages))))"
    by simp
  with run show ?thesis by blast
qed

subsection \<open>The loop of cleanup_old_files\<close>

lemma attempted_keys_simps [simp]:
  "attempted_keys [] = []"
  "attempted_keys (rs @ rs') = attempted_keys rs @ attempted_keys rs'"
  by (simp_all add: attempted_keys_def List.map_filter_def)

lemma attempted_keys_Cons [simp]:
  "attempted_keys ((lv, msg, as) # rs) =
     (if msg = ''Attempting to delete old file: %s (Date: %s)''
      then (case as of S k # as' \<Rightarrow> [k] | _ \<Rightarrow> []) else []) @ attempted_keys rs"
  by (auto simp: attempted_keys_def List.map_filter_def split: list.splits arg.splits)

lemma delete_from_storage_frame:
  assumes "delete_from_storage client k dry_run w = (b, w1)"
  shows "\<exists>ls. logs w1 = logs w @ ls \<and> attempted_keys ls = []
              \<and> calls w1 = calls w @ (if dry_run \<or> client = None then [] else [DeleteObject k])
              \<and> (dry_run \<or> client = None \<longrightarrow> st w1 = st w)
              \<and> (dry_run \<and> client \<noteq> None \<longrightarrow> b)"
  using assms
  by (auto simp: delete_from_storage_def delete_failed_def Let_def
           split: option.splits if_splits prod.splits sum.splits)

lemma list_more_logs_aux:
  assumes "list_more c response files w = Some y"
  shows "\<exists>ls. logs (snd y) = logs w @ ls \<and> attempted_keys ls = []"
  using assms
proof (induction c response files w y rule: list_more.raw_induct [rotated 1, consumes 1])
  case (1 lm c response files w y)
  show ?case
  proof (cases "IsTruncated response")
    case False
    then show ?thesis using 1(2) by auto
  next
    case True
    show ?thesis
    proof (cases "NextContinuationToken response")
      case None
      then show ?thesis using 1(2) True by auto
    next
      case (Some tok)
      show ?thesis
      proof (cases "list_objects_v2 c (st w) [] (Some tok)")
        case (Inl e)
        then show ?thesis using 1(2) True Some by auto
      next
        case (Inr response')
        show ?thesis
        proof (cases "Contents response'")
          case None
          then show ?thesis using 1(2) True Some Inr by auto
        next
          case (Some objs)
          with 1(2) True \<open>NextContinuationToken response = Some tok\<close> Inr
          have "lm c response' (files @ map Key objs)
                       (emit INFO ''Retrieved additional %d files from paginated response.''
                          [I (int (length objs))]
                          (invoke (ListObjectsV2 [] (Some tok)) w)) = Some y" by simp
          from 1(1) [OF this] obtain ls where
            "logs (snd y) = logs w @ (INFO, ''Retrieved additional %d files from paginated response.'',
                          [I (int (length objs))]) # ls"
            "attempted_keys ls = []" by auto
          then show ?thesis
            by (intro exI [of _ "(INFO, ''Retrieved additional %d files from paginated response.'',
                          [I (int (length objs))]) # ls"]) simp
        qed
      qed
    qed
  qed
qed

lemma list_storage_files_logs:
  assumes "list_storage_files client w = Some (r, w1)"
  shows "\<exists>ls. logs w1 = logs w @ ls \<and> attempted_keys ls = []"
proof (cases client)
  case None
  then show ?thesis using assms by (auto simp: list_storage_files_def)
next
  case (Some c)
  show ?thesis
  proof (cases "list_objects_v2 c (st w) [] None")
    case (Inl e)
    then show ?thesis using assms Some
      by (auto simp: list_storage_files_def list_failed_def Let_def split: if_splits)
  next
    case (Inr response)
    show ?thesis
    proof (cases "Contents response")
      case None
      then show ?thesis using assms Some Inr
        by (auto simp: list_storage_files_def Let_def)
    next
      case (Some objs)
      let ?w0 = "emit INFO ''Found %d files in storage.'' [I (int (length objs))]
                   (invoke (ListObjectsV2 [] None) (emit INFO ''Listing files in s3://%s'' [] w))"
      from assms \<open>client = Some c\<close> Inr Some
      have "\<exists>r' w2. list_more c response (map Key objs) ?w0 = Some (r', w2)
                    \<and> (logs w1 = logs w2 \<or> (\<exists>e. w1 = list_failed e w2))"
        by (auto simp: list_storage_files_def Let_def split: option.splits sum.splits)
      then obtain r' w2 where lm: "list_more c response (map Key objs) ?w0 = Some (r', w2)"
        and w1: "logs w1 = logs w2 \<or> (\<exists>e. w1 = list_failed e w2)"
        by blast
      from list_more_logs_aux [OF lm] obtain ls where
        ls: "logs w2 = logs w @ (INFO, ''Listing files in s3://%s'', [])
                  # (INFO, ''Found %d files in storage.'', [I (int (length objs))]) # ls"
        "attempted_keys ls = []" by auto
      from w1 show ?thesis
      proof
        assume "logs w1 = logs w2"
        then show ?thesis using ls by simp
      next
        assume "\<exists>e. w1 = list_failed e w2"
        then obtain e where "w1 = list_failed e w2" by blast
        then show ?thesis using ls by (auto simp: list_failed_def)
      qed
    qed
  qed
qed

lemma is_expired_simps:
  "strptime cfg (date_str_of k) = None \<Longrightarrow> \<not> is_expired cfg cutoff k"
  "strptime cfg (date_str_of k) = Some d \<Longrightarrow> is_expired cfg cutoff k = (d < cutoff)"
  by (simp_all add: is_expired_def)

lemma cleanup_loop_frame:
  "\<exists>ls. logs (snd (cleanup_loop cfg client cutoff dry_run files n w)) = logs w @ ls
        \<and> attempted_keys ls = filter (is_expired cfg cutoff) files
        \<and> calls (snd (cleanup_loop cfg client cutoff dry_run files n w))
            = calls w @ (if dry_run \<or> client = None then []
                         else map DeleteObject (filter (is_expired cfg cutoff) files))
        \<and> (dry_run \<or> client = None
             \<longrightarrow> st (snd (cleanup_loop cfg client cutoff dry_run files n w)) = st w)
        \<and> (dry_run \<and> client \<noteq> None
             \<longrightarrow> fst (cleanup_loop cfg client cutoff dry_run files n w)
                 = n + length (filter (is_expired cfg cutoff) files))"
proof (induction files arbitrary: n w)
  case Nil
  then show ?case by simp
next
  case (Cons k files)
  show ?case
  proof (cases "strptime cfg (date_str_of k)")
    case None
    from Cons.IH [of n "emit WARNING ''Could not parse date from filename for cleanup: %s. Skipping.''
               [S k] w"]
    obtain ls where
      "logs (snd (cleanup_loop cfg client cutoff dry_run (k # files) n w))
         = logs w @ (WARNING, ''Could not parse date from filename for cleanup: %s. Skipping.'', [S k]) # ls"
      "attempted_keys ls = filter (is_expired cfg cutoff) files"
      "calls (snd (cleanup_loop cfg client cutoff dry_run (k # files) n w))
            = calls w @ (if dry_run \<or> client = None then []
                         else map DeleteObject (filter (is_expired cfg cutoff) files))"
      "dry_run \<or> client = None
             \<longrightarrow> st (snd (cleanup_loop cfg client cutoff dry_run (k # files) n w)) = st w"
      "dry_run \<and> client \<noteq> None
             \<longrightarrow> fst (cleanup_loop cfg client cutoff dry_run (k # files) n w)
                 = n + length (filter (is_expired cfg cutoff) files)"
      using None by auto
    then show ?thesis using None
      by (intro exI [of _ "(WARNING, ''Could not parse date from filename for cleanup: %s. Skipping.'', [S k]) # ls"])
         (simp add: is_expired_simps)
  next
    case (Some d)
    show ?thesis
    proof (cases "d < cutoff")
      case False
      then have step: "cleanup_loop cfg client cutoff dry_run (k # files) n w
                       = cleanup_loop cfg client cutoff dry_run files n w"
        and f: "filter (is_expired cfg cutoff) (k # files) = filter (is_expired cfg cutoff) files"
        using Some by (simp_all add: is_expired_simps)
      show ?thesis unfolding step f by (rule Cons.IH)
    next
      case True
      let ?w = "emit INFO ''Attempting to delete old file: %s (Date: %s)'' [S k, I d] w"
      obtain b w1 where d: "delete_from_storage client k dry_run ?w = (b, w1)"
        by (cases "delete_from_storage client k dry_run ?w")
      from delete_from_storage_frame [OF d] obtain ls1 where
        l1: "logs w1 = logs w @ (INFO, ''Attempting to delete old file: %s (Date: %s)'', [S k, I d]) # ls1"
          "attempted_keys ls1 = []"
        and c1: "calls w1 = calls w @ (if dry_run \<or> client = None then [] else [DeleteObject k])"
        and s1: "dry_run \<or> client = None \<longrightarrow> st w1 = st w"
        and b1: "dry_run \<and> client \<noteq> None \<longrightarrow> b"
        by auto
      let ?w2 = "if b then emit INFO ''Successfully deleted %s%s''
                      [S k, S (if dry_run then '' (Dry Run)'' else [])] w1 else w1"
      let ?n2 = "if b then n + 1 else n"
      have step: "cleanup_loop cfg client cutoff dry_run (k # files) n w
                  = cleanup_loop cfg client cutoff dry_run files ?n2 ?w2"
        using Some True d by simp
      from Cons.IH [of ?n2 ?w2] obtain ls where
        "logs (snd (cleanup_loop cfg client cutoff dry_run files ?n2 ?w2)) = logs ?w2 @ ls"
        "attempted_keys ls = filter (is_expired cfg cutoff) files"
        "calls (snd (cleanup_loop cfg client cutoff dry_run files ?n2 ?w2))
            = calls ?w2 @ (if dry_run \<or> client = None then []
                         else map DeleteObject (filter (is_expired cfg cutoff) files))"
        "dry_run \<or> client = None
             \<longrightarrow> st (snd (cleanup_loop cfg client cutoff dry_run files ?n2 ?w2)) = st ?w2"
        "dry_run \<and> client \<noteq> None
             \<longrightarrow> fst (cleanup_loop cfg client cutoff dry_run files ?n2 ?w2)
                 = ?n2 + length (filter (is_expired cfg cutoff) files)"
        by blast
      then show ?thesis unfolding step using l1 c1 s1 b1 Some True
        by (intro exI [of _ "(INFO, ''Attempting to delete old file: %s (Date: %s)'', [S k, I d])
                              # ls1 @ (if b then [(INFO, ''Successfully deleted %s%s'',
                      [S k, S (if dry_run then '' (Dry Run)'' else [])])] else []) @ ls"])
           (auto simp: is_expired_simps)
    qed
  qed
qed

lemma new_logs_append [simp]: "logs w' = logs w @ ls \<Longrightarrow> new_logs w w' = ls"
  by (simp add: new_logs_def)

lemma cutoff_purge:
  "date_minus_days target days = Inr cutoff \<Longrightarrow> cutoff = target - days"
  by (auto simp: date_minus_days_def split: if_splits)

lemma cleanup_old_files_run:
  assumes run: "cleanup_old_files cfg client target days_arg dry_run w = Some w'"
  defines "days \<equiv> (case days_arg of None \<Rightarrow> RETENTION_DAYS cfg | Some d \<Rightarrow> d)"
  shows "\<exists>cs ks. (\<forall>x \<in> set cs. is_list_call x)
           \<and> (\<forall>k \<in> set ks. is_expired cfg (target - days) k)
           \<and> attempted_keys (new_logs w w') = ks
           \<and> new_calls w w' = cs @ (if dry_run \<or> client = None then [] else map DeleteObject ks)
           \<and> (dry_run \<or> client = None \<longrightarrow> st w' = st w)"
proof -
  from run obtain all_files w1 where ls: "list_storage_files client w = Some (all_files, w1)"
    unfolding cleanup_old_files_def Let_def by (auto split: option.splits)
  from list_storage_files_frame [OF ls] obtain cs where
    f1: "st w1 = st w" "calls w1 = calls w @ cs" "\<forall>x \<in> set cs. is_list_call x"
    by auto
  from list_storage_files_logs [OF ls] obtain ls1 where
    l1: "logs w1 = logs w @ ls1" "attempted_keys ls1 = []" by auto
  show ?thesis
  proof (cases "all_files = None \<or> all_files = Some []")
    case True
    then have "w' = emit INFO ''No files found in storage, skipping cleanup.'' [] w1"
      using run ls unfolding cleanup_old_files_def Let_def by auto
    then show ?thesis using f1 l1
      by (intro exI [of _ cs] exI [of _ "[]"]) simp
  next
    case False
    then obtain files where files: "all_files = Some files" "files \<noteq> []" by auto
    let ?w2 = "emit INFO ''Checking %d files for cleanup (older than %d days relative to %s).''
                            [I (int (length files)), I days, S (strftime cfg target)] w1"
    show ?thesis
    proof (cases "date_minus_days target days")
      case (Inl e)
      then have "w' = emit ERROR ''Error during old file cleanup: %s'' [E e] ?w2"
        using run ls files unfolding cleanup_old_files_def Let_def days_def by auto
      then show ?thesis using f1 l1
        by (intro exI [of _ cs] exI [of _ "[]"]) simp
    next
      case (Inr cutoff)
      then have c: "cutoff = target - days" by (rule cutoff_purge)
      let ?r = "cleanup_loop cfg client cutoff dry_run files 0 ?w2"
      have w': "w' = emit INFO ''Cleanup complete. %s %d old files.''
                              [S (if dry_run then ''Simulated deleting'' else ''Deleted''),
                               I (int (fst ?r))] (snd ?r)"
        using run ls files Inr unfolding cleanup_old_files_def Let_def days_def
        by (auto split: prod.splits)
      from cleanup_loop_frame [of cfg client cutoff dry_run files 0 ?w2] obtain ls2 where
        "logs (snd ?r) = logs ?w2 @ ls2"
        "attempted_keys ls2 = filter (is_expired cfg cutoff) files"
        "calls (snd ?r) = calls ?w2 @ (if dry_run \<or> client = None then []
                         else map DeleteObject (filter (is_expired cfg cutoff) files))"
        "dry_run \<or> client = None \<longrightarrow> st (snd ?r) = st ?w2"
        by blast
      then show ?thesis using f1 l1 c
        unfolding w'
        by (intro exI [of _ cs] exI [of _ "filter (is_expired cfg cutoff) files"]) simp
    qed
  qed
qed

lemma cleanup_old_files_serves:
  fixes days_arg cfg
  defines "days \<equiv> (case days_arg of None \<Rightarrow> RETENTION_DAYS cfg | Some d \<Rightarrow> d)"
  assumes sv: "serves c (st w) [] None pages" "\<forall>p \<in> set pages. Contents p \<noteq> None"
    and ne: "keys_of pages \<noteq> []"
    and cut: "date_minus_days target days = Inr cutoff"
  shows "\<exists>w'. cleanup_old_files cfg (Some c) target days_arg dry_run w = Some w'
             \<and> new_calls w w'
                 = page_calls [] None pages
                   @ (if dry_run then []
                      else map DeleteObject (filter (is_expired cfg cutoff) (keys_of pages)))
             \<and> attempted_keys (new_logs w w') = filter (is_expired cfg cutoff) (keys_of pages)
             \<and> (dry_run \<longrightarrow> st w' = st w)"
proof -
  from list_storage_files_serves [OF sv] obtain w1 where
    ls: "list_storage_files (Some c) w = Some (Some (keys_of pages), w1)"
    and f1: "st w1 = st w" "calls w1 = calls w @ page_calls [] None pages"
    by auto
  from list_storage_files_logs [OF ls] obtain ls1 where
    l1: "logs w1 = logs w @ ls1" "attempted_keys ls1 = []" by auto
  define files where "files = keys_of pages"
  let ?w2 = "emit INFO ''Checking %d files for cleanup (older than %d days relative to %s).''
                            [I (int (length files)), I days, S (strftime cfg target)] w1"
  let ?r = "cleanup_loop cfg (Some c) cutoff dry_run files 0 ?w2"
  let ?w' = "emit INFO ''Cleanup complete. %s %d old files.''
                              [S (if dry_run then ''Simulated deleting'' else ''Deleted''),
                               I (int (fst ?r))] (snd ?r)"
  have run: "cleanup_old_files cfg (Some c) target days_arg dry_run w = Some ?w'"
    using ls ne cut unfolding cleanup_old_files_def Let_def days_def files_def
    by (auto split: prod.splits)
  from cleanup_loop_frame [of cfg "Some c" cutoff dry_run files 0 ?w2] obtain ls2 where
        "logs (snd ?r) = logs ?w2 @ ls2"
        "attempted_keys ls2 = filter (is_expired cfg cutoff) files"
        "calls (snd ?r) = calls ?w2 @ (if dry_run then []
                         else map DeleteObject (filter (is_expired cfg cutoff) files))"
        "dry_run \<longrightarrow> st (snd ?r) = st ?w2"
    by auto
  then show ?thesis using f1 l1 unfolding run files_def [symmetric]
    by (intro exI [of _ ?w']) simp
qed

subsection \<open>The day between the cutoffs\<close>

lemma past_papers_sound:
  assumes run: "get_past_papers_from_storage cfg client target days_arg w = Some (links, w')"
  defines "days \<equiv> (case days_arg of None \<Rightarrow> RETENTION_DAYS cfg | Some d \<Rightarrow> d)"
  shows "\<forall>x \<in> set (new_calls w w').
           is_list_call x
           \<or> (\<exists>d k. x = GeneratePresignedUrl k 3600 \<and> strptime cfg (date_str_of k) = Some d
                    \<and> is_newspaper k \<and> target - (days - 1) \<le> d \<and> d \<le> target)"
proof -
  from get_past_papers_run [OF run] obtain cs where
    cs: "\<forall>x \<in> set cs. is_list_call x"
    and alt: "(links = [] \<and> calls w' = calls w @ cs) \<or>
             (\<exists>files w2. calls w2 = calls w @ cs \<and>
                calls w' = calls (snd (links_loop cfg client target (target - (days - 1)) days
                                        (sort_rev fst (dated_of cfg files)) [] w2)))"
    unfolding days_def by blast
  from alt show ?thesis
  proof
    assume "links = [] \<and> calls w' = calls w @ cs"
    then show ?thesis using cs by simp
  next
    assume "\<exists>files w2. calls w2 = calls w @ cs \<and>
                calls w' = calls (snd (links_loop cfg client target (target - (days - 1)) days
                                        (sort_rev fst (dated_of cfg files)) [] w2))"
    then obtain files w2 where w2: "calls w2 = calls w @ cs"
      and w': "calls w' = calls (snd (links_loop cfg client target (target - (days - 1)) days
                                        (sort_rev fst (dated_of cfg files)) [] w2))"
      by blast
    from links_loop_calls [of cfg client target "target - (days - 1)" days
                              "sort_rev fst (dated_of cfg files)" "[]" w2]
    obtain n where
      n: "calls w' = calls w @ cs @ concat (map (\<lambda>x. url_calls client (snd x))
             (filter (in_window (target - (days - 1)) target)
                 (take n (sort_rev fst (dated_of cfg files)))))"
      using w2 w' by auto
    have "is_list_call x
           \<or> (\<exists>d k. x = GeneratePresignedUrl k 3600 \<and> strptime cfg (date_str_of k) = Some d
                    \<and> is_newspaper k \<and> target - (days - 1) \<le> d \<and> d \<le> target)"
      if "x \<in> set (new_calls w w')" for x
    proof -
      from that n have "x \<in> set cs \<or> (\<exists>y \<in> set (take n (sort_rev fst (dated_of cfg files))).
                          in_window (target - (days - 1)) target y \<and> x \<in> set (url_calls client (snd y)))"
        by auto
      then show ?thesis
      proof
        assume "x \<in> set cs" then show ?thesis using cs by simp
      next
        assume "\<exists>y \<in> set (take n (sort_rev fst (dated_of cfg files))).
                   in_window (target - (days - 1)) target y \<and> x \<in> set (url_calls client (snd y))"
        then obtain y where y: "y \<in> set (take n (sort_rev fst (dated_of cfg files)))"
          "in_window (target - (days - 1)) target y" "x \<in> set (url_calls client (snd y))"
          by blast
        from y(1) have "y \<in> set (dated_of cfg files)" by (auto dest: in_set_takeD)
        then have "strptime cfg (date_str_of (snd y)) = Some (fst y) \<and> is_newspaper (snd y)"
          by (auto simp: set_dated_of)
        moreover have "x = GeneratePresignedUrl (snd y) 3600"
          using y(3) by (auto simp: url_calls_def split: option.splits)
        ultimately show ?thesis using y(2) by (auto simp: in_window_def)
      qed
    qed
    then show ?thesis by blast
  qed
qed

text \<open>
  C1. A key whose date is exactly \<open>target_date - days\<close> falls between the two
  cutoffs. \<^verbatim>\<open>get_past_papers_from_storage\<close> never asks a URL for it (its window
  starts at \<open>target_date - (days - 1)\<close>), and \<^verbatim>\<open>cleanup_old_files\<close> never hands
  it to \<^verbatim>\<open>delete_from_storage\<close>, in a real run or a dry one (it deletes strictly
  before \<open>target_date - days\<close>). The two cutoffs, when both are dates, are one day
  apart. This holds for every \<open>days\<close>, so for every \<open>days\<close> from 1.
\<close>

theorem gap_day_neither_current_nor_expired:
  assumes "strptime cfg (date_str_of k)
             = Some (target - (case days_arg of None \<Rightarrow> RETENTION_DAYS cfg | Some d \<Rightarrow> d))"
  shows "(\<forall>links w'. get_past_papers_from_storage cfg client target days_arg w = Some (links, w')
            \<longrightarrow> (\<forall>e. GeneratePresignedUrl k e \<notin> set (new_calls w w')))
       \<and> (\<forall>w'. cleanup_old_files cfg client target days_arg dry_run w = Some w'
            \<longrightarrow> DeleteObject k \<notin> set (new_calls w w')
                \<and> k \<notin> set (attempted_keys (new_logs w w')))
       \<and> (\<forall>c1 c2. date_minus_days target
                     ((case days_arg of None \<Rightarrow> RETENTION_DAYS cfg | Some d \<Rightarrow> d) - 1) = Inr c1
                  \<and> date_minus_days target
                     (case days_arg of None \<Rightarrow> RETENTION_DAYS cfg | Some d \<Rightarrow> d) = Inr c2
            \<longrightarrow> c1 = c2 + 1)"
proof -
  define days where "days = (case days_arg of None \<Rightarrow> RETENTION_DAYS cfg | Some d \<Rightarrow> d)"
  have k: "strptime cfg (date_str_of k) = Some (target - days)" using assms by (simp add: days_def)
  have a: "GeneratePresignedUrl k e \<notin> set (new_calls w w')"
    if "get_past_papers_from_storage cfg client target days_arg w = Some (links, w')"
    for links w' e
  proof
    assume "GeneratePresignedUrl k e \<in> set (new_calls w w')"
    with past_papers_sound [OF that] k show False
      by (auto simp: is_list_call_def days_def)
  qed
  have b: "DeleteObject k \<notin> set (new_calls w w') \<and> k \<notin> set (attempted_keys (new_logs w w'))"
    if "cleanup_old_files cfg client target days_arg dry_run w = Some w'" for w'
  proof -
    from cleanup_old_files_run [OF that] obtain cs ks where
      "\<forall>x \<in> set cs. is_list_call x" "\<forall>k \<in> set ks. is_expired cfg (target - days) k"
      "attempted_keys (new_logs w w') = ks"
      "new_calls w w' = cs @ (if dry_run \<or> client = None then [] else map DeleteObject ks)"
      unfolding days_def by blast
    moreover have "\<not> is_expired cfg (target - days) k" using k by (simp add: is_expired_def)
    ultimately show ?thesis by (auto simp: is_list_call_def split: if_splits)
  qed
  have c: "c1 = c2 + 1"
    if "date_minus_days target (days - 1) = Inr c1 \<and> date_minus_days target days = Inr c2"
    for c1 c2
    using cutoff_window [of target days c1] cutoff_purge [of target days c2] that by simp
  show ?thesis using a b c unfolding days_def by blast
qed

theorem gap_day_neither_current_nor_expired_witness:
  "strptime default_config (date_str_of ''2024-06-07_newspaper.pdf'') = Some (ymd2ord 2024 6 10 - 3)
   \<and> (\<exists>links w'. get_past_papers_from_storage default_config (Some (fake_s3 3))
                    (ymd2ord 2024 6 10) (Some 3) (world0 sample_bucket) = Some (links, w')
         \<and> (\<forall>e. GeneratePresignedUrl ''2024-06-07_newspaper.pdf'' e
                  \<notin> set (new_calls (world0 sample_bucket) w')))
   \<and> (\<exists>w'. cleanup_old_files default_config (Some (fake_s3 3))
               (ymd2ord 2024 6 10) (Some 3) False (world0 sample_bucket) = Some w'
         \<and> DeleteObject ''2024-06-07_newspaper.pdf'' \<notin> set (new_calls (world0 sample_bucket) w')
         \<and> ''2024-06-07_newspaper.pdf'' \<notin> set (attempted_keys (new_logs (world0 sample_bucket) w')))
   \<and> date_minus_days (ymd2ord 2024 6 10) (3 - 1) = Inr (ymd2ord 2024 6 8)
   \<and> date_minus_days (ymd2ord 2024 6 10) 3 = Inr (ymd2ord 2024 6 7)
   \<and> ymd2ord 2024 6 8 = ymd2ord 2024 6 7 + 1"
proof -
  let ?k = "''2024-06-07_newspaper.pdf''"
  let ?w = "world0 sample_bucket"
  let ?past = "get_past_papers_from_storage default_config (Some (fake_s3 3))
                    (ymd2ord 2024 6 10) (Some 3) ?w"
  let ?clean = "cleanup_old_files default_config (Some (fake_s3 3))
               (ymd2ord 2024 6 10) (Some 3) False ?w"
  have k: "strptime default_config (date_str_of ?k)
             = Some (ymd2ord 2024 6 10 - (case Some 3 of None \<Rightarrow> RETENTION_DAYS default_config | Some d \<Rightarrow> d))"
    by code_simp
  have sv: "serves (fake_s3 3) (st ?w) [] None sample_pages"
    "\<forall>p \<in> set sample_pages. Contents p \<noteq> None" "keys_of sample_pages \<noteq> []"
    using sample_pages_served by (simp_all add: world0_def)
  have c1: "date_minus_days (ymd2ord 2024 6 10)
              ((case Some 3 of None \<Rightarrow> RETENTION_DAYS default_config | Some d \<Rightarrow> d) - 1)
            = Inr (ymd2ord 2024 6 8)"
    and c2: "date_minus_days (ymd2ord 2024 6 10)
              (case Some 3 of None \<Rightarrow> RETENTION_DAYS default_config | Some d \<Rightarrow> d)
            = Inr (ymd2ord 2024 6 7)"
    by code_simp+
  from get_past_papers_serves [OF sv c1]
  obtain links w1 where p: "?past = Some (links, w1)" by blast
  from cleanup_old_files_serves [OF sv c2, where dry_run = False]
  obtain w2 where c: "?clean = Some w2" by blast
  have d: "date_minus_days (ymd2ord 2024 6 10) (3 - 1) = Inr (ymd2ord 2024 6 8)
   \<and> date_minus_days (ymd2ord 2024 6 10) 3 = Inr (ymd2ord 2024 6 7)
   \<and> ymd2ord 2024 6 8 = ymd2ord 2024 6 7 + 1" by code_simp
  from gap_day_neither_current_nor_expired [OF k, where client = "Some (fake_s3 3)" and w = ?w and dry_run = False] p c
  have "(\<forall>e. GeneratePresignedUrl ?k e \<notin> set (new_calls ?w w1))
        \<and> DeleteObject ?k \<notin> set (new_calls ?w w2) \<and> ?k \<notin> set (attempted_keys (new_logs ?w w2))"
    by blast
  moreover have "strptime default_config (date_str_of ?k) = Some (ymd2ord 2024 6 10 - 3)"
    by code_simp
  ultimately show ?thesis using p c d by blast
qed

subsection \<open>Keys without a date\<close>

lemma dated_of_parsed:
  "dated_of cfg (filter (\<lambda>f. strptime cfg (date_str_of f) \<noteq> None) files) = dated_of cfg files"
  by (induction files) (auto simp: dated_of_def List.map_filter_simps split: option.splits)

lemma filter_expired_parsed:
  "filter (is_expired cfg cutoff) (filter (\<lambda>f. strptime cfg (date_str_of f) \<noteq> None) files)
     = filter (is_expired cfg cutoff) files"
  by (induction files) (auto simp: is_expired_def)

text \<open>
  C5. A key whose date does not parse is never asked a URL by
  \<^verbatim>\<open>get_past_papers_from_storage\<close> and never handed to
  \<^verbatim>\<open>delete_from_storage\<close> by \<^verbatim>\<open>cleanup_old_files\<close>. Its presence in the
  listing stops neither operation: on a store that serves the listing both return, the
  links are those of the listing without its unparseable keys, and the keys handed to
  \<^verbatim>\<open>delete_from_storage\<close> (all deleted in a real run) are exactly the old keys
  of the listing without its unparseable keys.
\<close>

theorem unparseable_key_skipped:
  assumes "strptime cfg (date_str_of k) = None"
  shows "(\<forall>links w'. get_past_papers_from_storage cfg client target days_arg w = Some (links, w')
            \<longrightarrow> (\<forall>e. GeneratePresignedUrl k e \<notin> set (new_calls w w')))
       \<and> (\<forall>w'. cleanup_old_files cfg client target days_arg dry_run w = Some w'
            \<longrightarrow> DeleteObject k \<notin> set (new_calls w w')
                \<and> k \<notin> set (attempted_keys (new_logs w w')))
       \<and> (\<forall>c pages cutoff.
             client = Some c \<and> serves c (st w) [] None pages
             \<and> (\<forall>p \<in> set pages. Contents p \<noteq> None) \<and> k \<in> set (keys_of pages)
             \<and> date_minus_days target
                  ((case days_arg of None \<Rightarrow> RETENTION_DAYS cfg | Some d \<Rightarrow> d) - 1) = Inr cutoff
             \<longrightarrow> (\<exists>w'. get_past_papers_from_storage cfg client target days_arg w
                        = Some (sort_rev fst
                                  (take (nat (case days_arg of None \<Rightarrow> RETENTION_DAYS cfg | Some d \<Rightarrow> d))
                                     (List.map_filter (link_of cfg client)
                                        (recent_documents cfg cutoff target
                                           (filter (\<lambda>f. strptime cfg (date_str_of f) \<noteq> None)
                                              (keys_of pages))))), w')))
       \<and> (\<forall>c pages cutoff.
             client = Some c \<and> serves c (st w) [] None pages
             \<and> (\<forall>p \<in> set pages. Contents p \<noteq> None) \<and> k \<in> set (keys_of pages)
             \<and> date_minus_days target
                  (case days_arg of None \<Rightarrow> RETENTION_DAYS cfg | Some d \<Rightarrow> d) = Inr cutoff
             \<longrightarrow> (\<exists>w'. cleanup_old_files cfg client target days_arg dry_run w = Some w'
                      \<and> attempted_keys (new_logs w w')
                          = filter (is_expired cfg cutoff)
                              (filter (\<lambda>f. strptime cfg (date_str_of f) \<noteq> None) (keys_of pages))
                      \<and> (\<not> dry_run \<longrightarrow>
                           new_calls w w'
                             = page_calls [] None pages
                               @ map DeleteObject
                                   (filter (is_expired cfg cutoff)
                                      (filter (\<lambda>f. strptime cfg (date_str_of f) \<noteq> None)
                                         (keys_of pages))))))"
proof -
  define days where "days = (case days_arg of None \<Rightarrow> RETENTION_DAYS cfg | Some d \<Rightarrow> d)"
  have a: "GeneratePresignedUrl k e \<notin> set (new_calls w w')"
    if "get_past_papers_from_storage cfg client target days_arg w = Some (links, w')"
    for links w' e
  proof
    assume "GeneratePresignedUrl k e \<in> set (new_calls w w')"
    with past_papers_sound [OF that] assms show False
      by (auto simp: is_list_call_def)
  qed
  have b: "DeleteObject k \<notin> set (new_calls w w') \<and> k \<notin> set (attempted_keys (new_logs w w'))"
    if "cleanup_old_files cfg client target days_arg dry_run w = Some w'" for w'
  proof -
    from cleanup_old_files_run [OF that] obtain cs ks where
      "\<forall>x \<in> set cs. is_list_call x" "\<forall>k \<in> set ks. is_expired cfg (target - days) k"
      "attempted_keys (new_logs w w') = ks"
      "new_calls w w' = cs @ (if dry_run \<or> client = None then [] else map DeleteObject ks)"
      unfolding days_def by blast
    moreover have "\<not> is_expired cfg (target - days) k" using assms by (simp add: is_expired_def)
    ultimately show ?thesis by (auto simp: is_list_call_def split: if_splits)
  qed
  have c: "\<exists>w'. get_past_papers_from_storage cfg client target days_arg w
                        = Some (sort_rev fst
                                  (take (nat days)
                                     (List.map_filter (link_of cfg client)
                                        (recent_documents cfg cutoff target
                                           (filter (\<lambda>f. strptime cfg (date_str_of f) \<noteq> None)
                                              (keys_of pages))))), w')"
    if "client = Some c \<and> serves c (st w) [] None pages
             \<and> (\<forall>p \<in> set pages. Contents p \<noteq> None) \<and> k \<in> set (keys_of pages)
             \<and> date_minus_days target (days - 1) = Inr cutoff"
    for c pages cutoff
  proof -
    from that have ne: "keys_of pages \<noteq> []" by auto
    from that get_past_papers_serves [where cfg = cfg and days_arg = days_arg and target = target
        and cutoff = cutoff and c = c and w = w and pages = pages] ne
    show ?thesis unfolding days_def recent_documents_def dated_of_parsed by blast
  qed
  have d: "\<exists>w'. cleanup_old_files cfg client target days_arg dry_run w = Some w'
                      \<and> attempted_keys (new_logs w w')
                          = filter (is_expired cfg cutoff)
                              (filter (\<lambda>f. strptime cfg (date_str_of f) \<noteq> None) (keys_of pages))
                      \<and> (\<not> dry_run \<longrightarrow>
                           new_calls w w'
                             = page_calls [] None pages
                               @ map DeleteObject
                                   (filter (is_expired cfg cutoff)
                                      (filter (\<lambda>f. strptime cfg (date_str_of f) \<noteq> None)
                                         (keys_of pages))))"
    if "client = Some c \<and> serves c (st w) [] None pages
             \<and> (\<forall>p \<in> set pages. Contents p \<noteq> None) \<and> k \<in> set (keys_of pages)
             \<and> date_minus_days target days = Inr cutoff"
    for c pages cutoff
  proof -
    from that have ne: "keys_of pages \<noteq> []" by auto
    from that cleanup_old_files_serves [where cfg = cfg and days_arg = days_arg and target = target
        and cutoff = cutoff and c = c and w = w and pages = pages and dry_run = dry_run] ne
    obtain w' where "cleanup_old_files cfg client target days_arg dry_run w = Some w'"
      "new_calls w w' = page_calls [] None pages
                   @ (if dry_run then []
                      else map DeleteObject (filter (is_expired cfg cutoff) (keys_of pages)))"
      "attempted_keys (new_logs w w') = filter (is_expired cfg cutoff) (keys_of pages)"
      unfolding days_def by blast
    then show ?thesis unfolding filter_expired_parsed by auto
  qed
  show ?thesis
    unfolding days_def [symmetric]
    apply (intro conjI allI impI)
    using a apply blast
    using b apply blast
    using b apply blast
    using c apply blast
    using d apply blast
    done
qed

theorem unparseable_key_skipped_witness:
  "strptime default_config (date_str_of ''notes.txt'') = None
   \<and> ''notes.txt'' \<in> set (keys_of sample_pages)
   \<and> (\<exists>w'. get_past_papers_from_storage default_config (Some (fake_s3 3))
               (ymd2ord 2024 6 10) (Some 3) (world0 sample_bucket)
             = Some ([(''2024-06-10'', ''https://bucket.example/2024-06-10_newspaper.html''),
                      (''2024-06-10'', ''https://bucket.example/2024-06-10_newspaper.pdf''),
                      (''2024-06-09'', ''https://bucket.example/2024-06-09_newspaper.pdf'')], w')
         \<and> (\<forall>e. GeneratePresignedUrl ''notes.txt'' e \<notin> set (new_calls (world0 sample_bucket) w')))
   \<and> (\<exists>w'. cleanup_old_files default_config (Some (fake_s3 3))
               (ymd2ord 2024 6 10) (Some 3) False (world0 sample_bucket) = Some w'
         \<and> attempted_keys (new_logs (world0 sample_bucket) w') = [''2024-06-06_newspaper.pdf'']
         \<and> new_calls (world0 sample_bucket) w'
             = page_calls [] None sample_pages @ [DeleteObject ''2024-06-06_newspaper.pdf'']
         \<and> DeleteObject ''notes.txt'' \<notin> set (new_calls (world0 sample_bucket) w'))"
proof -
  let ?k = "''notes.txt''"
  let ?w = "world0 sample_bucket"
  let ?c = "Some (fake_s3 3)"
  let ?t = "ymd2ord 2024 6 10"
  let ?parsed = "filter (\<lambda>f. strptime default_config (date_str_of f) \<noteq> None) (keys_of sample_pages)"
  have k: "strptime default_config (date_str_of ?k) = None" by code_simp
  have kin: "?k \<in> set (keys_of sample_pages)" by code_simp
  have sv: "serves (fake_s3 3) (st ?w) [] None sample_pages"
    "\<forall>p \<in> set sample_pages. Contents p \<noteq> None"
    using sample_pages_served by (simp_all add: world0_def)
  have c1: "date_minus_days ?t
              ((case Some 3 of None \<Rightarrow> RETENTION_DAYS default_config | Some d \<Rightarrow> d) - 1)
            = Inr (ymd2ord 2024 6 8)"
    and c2: "date_minus_days ?t
              (case Some 3 of None \<Rightarrow> RETENTION_DAYS default_config | Some d \<Rightarrow> d)
            = Inr (ymd2ord 2024 6 7)"
    by code_simp+
  have e1: "sort_rev fst
              (take (nat (case Some 3 of None \<Rightarrow> RETENTION_DAYS default_config | Some d \<Rightarrow> d))
                 (List.map_filter (link_of default_config ?c)
                    (recent_documents default_config (ymd2ord 2024 6 8) ?t ?parsed)))
            = [(''2024-06-10'', ''https://bucket.example/2024-06-10_newspaper.html''),
               (''2024-06-10'', ''https://bucket.example/2024-06-10_newspaper.pdf''),
               (''2024-06-09'', ''https://bucket.example/2024-06-09_newspaper.pdf'')]"
    by code_simp
  have e2: "filter (is_expired default_config (ymd2ord 2024 6 7)) ?parsed
            = [''2024-06-06_newspaper.pdf'']"
    by code_simp
  note inst = unparseable_key_skipped [OF k, where client = ?c and target = ?t
      and days_arg = "Some 3" and w = ?w and dry_run = False]
  note i1 = inst [THEN conjunct1, rule_format]
  note i2 = inst [THEN conjunct2, THEN conjunct1, rule_format]
  note i3 = inst [THEN conjunct2, THEN conjunct2, THEN conjunct1, rule_format]
  note i4 = inst [THEN conjunct2, THEN conjunct2, THEN conjunct2, rule_format]
  have h3: "?c = Some (fake_s3 3) \<and> serves (fake_s3 3) (st ?w) [] None sample_pages
             \<and> (\<forall>p \<in> set sample_pages. Contents p \<noteq> None) \<and> ?k \<in> set (keys_of sample_pages)
             \<and> date_minus_days ?t
                  ((case Some 3 of None \<Rightarrow> RETENTION_DAYS default_config | Some d \<Rightarrow> d) - 1)
                 = Inr (ymd2ord 2024 6 8)"
    by (intro conjI refl sv kin c1)
  have h4: "?c = Some (fake_s3 3) \<and> serves (fake_s3 3) (st ?w) [] None sample_pages
             \<and> (\<forall>p \<in> set sample_pages. Contents p \<noteq> None) \<and> ?k \<in> set (keys_of sample_pages)
             \<and> date_minus_days ?t
                  (case Some 3 of None \<Rightarrow> RETENTION_DAYS default_config | Some d \<Rightarrow> d)
                 = Inr (ymd2ord 2024 6 7)"
    by (intro conjI refl sv kin c2)
  from i3 [OF h3] obtain w1 where
    p: "get_past_papers_from_storage default_config ?c ?t (Some 3) ?w
          = Some ([(''2024-06-10'', ''https://bucket.example/2024-06-10_newspaper.html''),
                   (''2024-06-10'', ''https://bucket.example/2024-06-10_newspaper.pdf''),
                   (''2024-06-09'', ''https://bucket.example/2024-06-09_newspaper.pdf'')], w1)"
    unfolding e1 by (elim exE)
  from i4 [OF h4, unfolded e2] obtain w2 where
    c: "cleanup_old_files default_config ?c ?t (Some 3) False ?w = Some w2"
      and cA: "attempted_keys (new_logs ?w w2) = [''2024-06-06_newspaper.pdf'']"
      and cB: "\<not> False \<longrightarrow> new_calls ?w w2
                 = page_calls [] None sample_pages @ map DeleteObject [''2024-06-06_newspaper.pdf'']"
    by (elim exE conjE)
  from cB have cC: "new_calls ?w w2
                 = page_calls [] None sample_pages @ [DeleteObject ''2024-06-06_newspaper.pdf'']"
    by simp
  note a = i1 [OF p]
  note b = i2 [OF c, THEN conjunct1]
  show ?thesis
    apply (intro conjI)
       apply (rule k)
      apply (rule kin)
     apply (rule exI [of _ w1])
     apply (intro conjI allI)
      apply (rule p)
     apply (rule a)
    apply (rule exI [of _ w2])
    apply (intro conjI)
       apply (rule c)
      apply (rule cA)
     apply (rule cC)
    apply (rule b)
    done
qed

subsection \<open>The window of current documents\<close>

text \<open>
  C2, as stated, fails. On 2024-06-10 with \<open>days = 1\<close> the bucket holds two
  documents of that day. Both parse, both are documents, both lie in the interval
  from 2024-06-10 to 2024-06-10; the loop takes the first, has its one link, and stops:
  the second is never asked a URL and is not among the links.
\<close>

theorem in_window_document_not_selected:
  "strptime default_config (date_str_of ''2024-06-10_newspaper.pdf'') = Some (ymd2ord 2024 6 10)
   \<and> is_newspaper ''2024-06-10_newspaper.pdf''
   \<and> ymd2ord 2024 6 10 - (1 - 1) \<le> ymd2ord 2024 6 10
   \<and> keys_of sample_pages
       = [''2024-06-06_newspaper.pdf'', ''2024-06-07_newspaper.pdf'', ''2024-06-09_newspaper.pdf'',
          ''2024-06-10_newspaper.html'', ''2024-06-10_newspaper.pdf'', ''2024-06-10_thumbnail.jpg'',
          ''notes.txt'']
   \<and> map_option fst
        (get_past_papers_from_storage default_config (Some (fake_s3 3)) (ymd2ord 2024 6 10)
           (Some 1) (world0 sample_bucket))
       = Some [(''2024-06-10'', ''https://bucket.example/2024-06-10_newspaper.html'')]
   \<and> map_option (calls \<circ> snd)
        (get_past_papers_from_storage default_config (Some (fake_s3 3)) (ymd2ord 2024 6 10)
           (Some 1) (world0 sample_bucket))
       = Some [ListObjectsV2 [] None, ListObjectsV2 [] (Some ''xxx''),
               ListObjectsV2 [] (Some ''xxxxxx''),
               GeneratePresignedUrl ''2024-06-10_newspaper.html'' 3600]"
  by code_simp

text \<open>
  C2, amended. A key is asked a URL only if its date parses, it names a newspaper
  document, and the date lies between \<open>target_date - (days - 1)\<close> and
  \<open>target_date\<close>: a later date is never taken. On a store that serves the listing,
  every such key of the listing is asked a URL when the documents in the window number
  at most \<open>days\<close>.
\<close>

theorem selected_within_window:
  assumes run: "get_past_papers_from_storage cfg client target days_arg w = Some (links, w')"
  shows "(\<forall>k e. GeneratePresignedUrl k e \<in> set (new_calls w w')
            \<longrightarrow> e = 3600
                \<and> (\<exists>d. strptime cfg (date_str_of k) = Some d \<and> is_newspaper k
                        \<and> target - ((case days_arg of None \<Rightarrow> RETENTION_DAYS cfg | Some d \<Rightarrow> d) - 1) \<le> d
                        \<and> d \<le> target))
       \<and> (\<forall>c pages cutoff k d.
             client = Some c \<and> serves c (st w) [] None pages
             \<and> (\<forall>p \<in> set pages. Contents p \<noteq> None)
             \<and> date_minus_days target
                  ((case days_arg of None \<Rightarrow> RETENTION_DAYS cfg | Some d \<Rightarrow> d) - 1) = Inr cutoff
             \<and> int (length (recent_documents cfg cutoff target (keys_of pages)))
                  \<le> (case days_arg of None \<Rightarrow> RETENTION_DAYS cfg | Some d \<Rightarrow> d)
             \<and> k \<in> set (keys_of pages) \<and> strptime cfg (date_str_of k) = Some d
             \<and> is_newspaper k \<and> cutoff \<le> d \<and> d \<le> target
             \<longrightarrow> GeneratePresignedUrl k 3600 \<in> set (new_calls w w'))"
proof -
  define days where "days = (case days_arg of None \<Rightarrow> RETENTION_DAYS cfg | Some d \<Rightarrow> d)"
  have a: "e = 3600 \<and> (\<exists>d. strptime cfg (date_str_of k) = Some d \<and> is_newspaper k
                        \<and> target - (days - 1) \<le> d \<and> d \<le> target)"
    if "GeneratePresignedUrl k e \<in> set (new_calls w w')" for k e
    using past_papers_sound [OF run] that unfolding days_def
    by (fastforce simp: is_list_call_def)
  have b: "GeneratePresignedUrl k 3600 \<in> set (new_calls w w')"
    if h: "client = Some c \<and> serves c (st w) [] None pages
             \<and> (\<forall>p \<in> set pages. Contents p \<noteq> None)
             \<and> date_minus_days target (days - 1) = Inr cutoff
             \<and> int (length (recent_documents cfg cutoff target (keys_of pages))) \<le> days
             \<and> k \<in> set (keys_of pages) \<and> strptime cfg (date_str_of k) = Some d
             \<and> is_newspaper k \<and> cutoff \<le> d \<and> d \<le> target"
    for c pages cutoff k d
  proof -
    from h have ne: "keys_of pages \<noteq> []" by auto
    from h ne get_past_papers_serves [where cfg = cfg and days_arg = days_arg and target = target
        and cutoff = cutoff and c = c and w = w and pages = pages] run
    have nc: "new_calls w w' = page_calls [] None pages
                     @ map (\<lambda>x. GeneratePresignedUrl (snd x) 3600)
                         (recent_documents cfg cutoff target (keys_of pages))"
      unfolding days_def by auto
    from h have "(d, k) \<in> set (recent_documents cfg cutoff target (keys_of pages))"
      by (auto simp: recent_documents_def set_dated_of in_window_def)
    then have "GeneratePresignedUrl (snd (d, k)) 3600
                 \<in> (\<lambda>x. GeneratePresignedUrl (snd x) 3600)
                     ` set (recent_documents cfg cutoff target (keys_of pages))"
      by (rule imageI)
    then show ?thesis unfolding nc by simp
  qed
  show ?thesis unfolding days_def [symmetric] using a b by blast
qed

theorem selected_within_window_witness:
  "\<exists>links w'.
     get_past_papers_from_storage default_config (Some (fake_s3 3)) (ymd2ord 2024 6 10)
       (Some 3) (world0 sample_bucket) = Some (links, w')
     \<and> serves (fake_s3 3) (st (world0 sample_bucket)) [] None sample_pages
     \<and> (\<forall>p \<in> set sample_pages. Contents p \<noteq> None)
     \<and> date_minus_days (ymd2ord 2024 6 10) (3 - 1) = Inr (ymd2ord 2024 6 8)
     \<and> int (length (recent_documents default_config (ymd2ord 2024 6 8) (ymd2ord 2024 6 10)
                       (keys_of sample_pages))) \<le> 3
     \<and> ''2024-06-09_newspaper.pdf'' \<in> set (keys_of sample_pages)
     \<and> strptime default_config (date_str_of ''2024-06-09_newspaper.pdf'') = Some (ymd2ord 2024 6 9)
     \<and> is_newspaper ''2024-06-09_newspaper.pdf''
     \<and> ymd2ord 2024 6 8 \<le> ymd2ord 2024 6 9 \<and> ymd2ord 2024 6 9 \<le> ymd2ord 2024 6 10
     \<and> GeneratePresignedUrl ''2024-06-09_newspaper.pdf'' 3600 \<in> set (new_calls (world0 sample_bucket) w')
     \<and> (\<forall>k e. GeneratePresignedUrl k e \<in> set (new_calls (world0 sample_bucket) w')
            \<longrightarrow> e = 3600
                \<and> (\<exists>d. strptime default_config (date_str_of k) = Some d \<and> is_newspaper k
                        \<and> ymd2ord 2024 6 10 - (3 - 1) \<le> d \<and> d \<le> ymd2ord 2024 6 10))"
proof -
  let ?k = "''2024-06-09_newspaper.pdf''"
  let ?w = "world0 sample_bucket"
  let ?t = "ymd2ord 2024 6 10"
  have sv: "serves (fake_s3 3) (st ?w) [] None sample_pages"
    "\<forall>p \<in> set sample_pages. Contents p \<noteq> None" "keys_of sample_pages \<noteq> []"
    using sample_pages_served by (simp_all add: world0_def)
  have c1: "date_minus_days ?t
              ((case Some 3 of None \<Rightarrow> RETENTION_DAYS default_config | Some d \<Rightarrow> d) - 1)
            = Inr (ymd2ord 2024 6 8)"
    by code_simp
  have c1': "date_minus_days ?t (3 - 1) = Inr (ymd2ord 2024 6 8)" by code_simp
  have n: "int (length (recent_documents default_config (ymd2ord 2024 6 8) ?t (keys_of sample_pages)))
            \<le> (case Some 3 of None \<Rightarrow> RETENTION_DAYS default_config | Some d \<Rightarrow> d)"
    by code_simp
  have n': "int (length (recent_documents default_config (ymd2ord 2024 6 8) ?t (keys_of sample_pages)))
            \<le> 3"
    using n by simp
  have kin: "?k \<in> set (keys_of sample_pages)" by code_simp
  have kd: "strptime default_config (date_str_of ?k) = Some (ymd2ord 2024 6 9)" by code_simp
  have kn: "is_newspaper ?k" by code_simp
  have r1: "ymd2ord 2024 6 8 \<le> ymd2ord 2024 6 9" and r2: "ymd2ord 2024 6 9 \<le> ?t" by code_simp+
  from get_past_papers_serves [OF sv c1]
  obtain links w1 where p: "get_past_papers_from_storage default_config (Some (fake_s3 3)) ?t
       (Some 3) ?w = Some (links, w1)" by blast
  note inst = selected_within_window [OF p]
  note i1 = inst [THEN conjunct1]
  note i2 = inst [THEN conjunct2, rule_format]
  have h: "Some (fake_s3 3) = Some (fake_s3 3) \<and> serves (fake_s3 3) (st ?w) [] None sample_pages
             \<and> (\<forall>p \<in> set sample_pages. Contents p \<noteq> None)
             \<and> date_minus_days ?t
                  ((case Some 3 of None \<Rightarrow> RETENTION_DAYS default_config | Some d \<Rightarrow> d) - 1)
                 = Inr (ymd2ord 2024 6 8)
             \<and> int (length (recent_documents default_config (ymd2ord 2024 6 8) ?t (keys_of sample_pages)))
                  \<le> (case Some 3 of None \<Rightarrow> RETENTION_DAYS default_config | Some d \<Rightarrow> d)
             \<and> ?k \<in> set (keys_of sample_pages)
             \<and> strptime default_config (date_str_of ?k) = Some (ymd2ord 2024 6 9)
             \<and> is_newspaper ?k \<and> ymd2ord 2024 6 8 \<le> ymd2ord 2024 6 9 \<and> ymd2ord 2024 6 9 \<le> ?t"
    by (intro conjI refl sv c1 n kin kd kn r1 r2)
  note sel = i2 [OF h]
  have i1': "\<forall>k e. GeneratePresignedUrl k e \<in> set (new_calls ?w w1)
            \<longrightarrow> e = 3600
                \<and> (\<exists>d. strptime default_config (date_str_of k) = Some d \<and> is_newspaper k
                        \<and> ?t - (3 - 1) \<le> d \<and> d \<le> ?t)"
    using i1 by simp
  show ?thesis
    apply (rule exI [of _ links])
    apply (rule exI [of _ w1])
    apply (intro conjI)
               apply (rule p)
              apply (rule sv(1))
             apply (rule sv(2))
            apply (rule c1')
           apply (rule n')
          apply (rule kin)
         apply (rule kd)
        apply (rule kn)
       apply (rule r1)
      apply (rule r2)
     apply (rule sel)
    apply (rule i1')
    done
qed

subsection \<open>Distinct dates among the links\<close>

lemma get_past_papers_length:
  assumes "get_past_papers_from_storage cfg client target days_arg w = Some (links, w')"
  shows "length links \<le> nat (case days_arg of None \<Rightarrow> RETENTION_DAYS cfg | Some d \<Rightarrow> d)"
proof -
  define days where "days = (case days_arg of None \<Rightarrow> RETENTION_DAYS cfg | Some d \<Rightarrow> d)"
  from get_past_papers_run [OF assms] consider "links = []"
    | files w2 where "links = sort_rev fst (fst (links_loop cfg client target (target - (days - 1)) days
                                      (sort_rev fst (dated_of cfg files)) [] w2))"
    unfolding days_def by blast
  then show ?thesis
  proof cases
    case 1
    then show ?thesis by simp
  next
    case 2
    have pre: "int (length ([] :: (string \<times> string) list)) < days \<or> target < target - (days - 1)"
      by auto
    from links_loop_length [OF pre] show ?thesis unfolding 2 days_def by simp
  qed
qed

lemma map_filter_all_Some:
  "\<forall>x \<in> set xs. f x \<noteq> None \<Longrightarrow> List.map_filter f xs = map (\<lambda>x. the (f x)) xs"
  by (induction xs) (auto simp: List.map_filter_simps)

lemma fst_link_of: "link_of cfg client x \<noteq> None \<Longrightarrow> fst (the (link_of cfg client x)) = strftime cfg (fst x)"
  by (auto simp: link_of_def split: option.splits if_splits)

text \<open>
  C9, as stated, fails. On 2024-06-10 with \<open>days = 2\<close> the window holds documents
  of two distinct dates, 2024-06-10 (two of them) and 2024-06-09. The two links
  returned are both of 2024-06-10: one distinct date, not two.
\<close>

theorem two_dates_in_window_one_in_current:
  "recent_documents default_config (ymd2ord 2024 6 9) (ymd2ord 2024 6 10) (keys_of sample_pages)
     = [(ymd2ord 2024 6 10, ''2024-06-10_newspaper.html''),
        (ymd2ord 2024 6 10, ''2024-06-10_newspaper.pdf''),
        (ymd2ord 2024 6 9, ''2024-06-09_newspaper.pdf'')]
   \<and> date_minus_days (ymd2ord 2024 6 10) (2 - 1) = Inr (ymd2ord 2024 6 9)
   \<and> map_option fst
        (get_past_papers_from_storage default_config (Some (fake_s3 3)) (ymd2ord 2024 6 10)
           (Some 2) (world0 sample_bucket))
       = Some [(''2024-06-10'', ''https://bucket.example/2024-06-10_newspaper.html''),
               (''2024-06-10'', ''https://bucket.example/2024-06-10_newspaper.pdf'')]
   \<and> remdups (map fst [(''2024-06-10'', ''https://bucket.example/2024-06-10_newspaper.html''),
                         (''2024-06-10'', ''https://bucket.example/2024-06-10_newspaper.pdf'')])
       = [''2024-06-10'']"
  by code_simp

text \<open>
  C9, amended. With \<open>days = 0\<close> no link is returned. For \<open>days\<close> from 0, on a
  store that serves the listing: when every date of the window carries a document of
  the listing, no two documents of the window share a date, a URL is issued for each,
  and the date format tells the dates of the window apart, the links carry exactly
  \<open>days\<close> distinct dates, those of the window.
\<close>

theorem one_document_per_date_gives_d_dates:
  assumes run: "get_past_papers_from_storage cfg client target days_arg w = Some (links, w')"
  shows "((case days_arg of None \<Rightarrow> RETENTION_DAYS cfg | Some d \<Rightarrow> d) = 0 \<longrightarrow> links = [])
       \<and> (\<forall>c pages cutoff.
             0 \<le> (case days_arg of None \<Rightarrow> RETENTION_DAYS cfg | Some d \<Rightarrow> d)
             \<and> client = Some c \<and> serves c (st w) [] None pages
             \<and> (\<forall>p \<in> set pages. Contents p \<noteq> None)
             \<and> date_minus_days target
                  ((case days_arg of None \<Rightarrow> RETENTION_DAYS cfg | Some d \<Rightarrow> d) - 1) = Inr cutoff
             \<and> fst ` set (recent_documents cfg cutoff target (keys_of pages)) = {cutoff..target}
             \<and> distinct (map fst (recent_documents cfg cutoff target (keys_of pages)))
             \<and> (\<forall>x \<in> set (recent_documents cfg cutoff target (keys_of pages)).
                   link_of cfg client x \<noteq> None)
             \<and> inj_on (strftime cfg) {cutoff..target}
             \<longrightarrow> fst ` set links = strftime cfg ` {cutoff..target}
                 \<and> card (fst ` set links) = nat (case days_arg of None \<Rightarrow> RETENTION_DAYS cfg | Some d \<Rightarrow> d)
                 \<and> length links = nat (case days_arg of None \<Rightarrow> RETENTION_DAYS cfg | Some d \<Rightarrow> d))"
proof -
  define days where "days = (case days_arg of None \<Rightarrow> RETENTION_DAYS cfg | Some d \<Rightarrow> d)"
  have len: "length links \<le> nat days"
    using get_past_papers_length [OF run] by (simp add: days_def)
  have a: "links = []" if "days = 0" using len that by simp
  have b: "fst ` set links = strftime cfg ` {cutoff..target}
           \<and> card (fst ` set links) = nat days \<and> length links = nat days"
    if h: "0 \<le> days \<and> client = Some c \<and> serves c (st w) [] None pages
             \<and> (\<forall>p \<in> set pages. Contents p \<noteq> None)
             \<and> date_minus_days target (days - 1) = Inr cutoff
             \<and> fst ` set (recent_documents cfg cutoff target (keys_of pages)) = {cutoff..target}
             \<and> distinct (map fst (recent_documents cfg cutoff target (keys_of pages)))
             \<and> (\<forall>x \<in> set (recent_documents cfg cutoff target (keys_of pages)).
                   link_of cfg client x \<noteq> None)
             \<and> inj_on (strftime cfg) {cutoff..target}"
    for c pages cutoff
  proof -
    define recent where "recent = recent_documents cfg cutoff target (keys_of pages)"
    from h have cut: "cutoff = target - (days - 1)" by (auto dest: cutoff_window)
    from h have cover: "fst ` set recent = {cutoff..target}" and nodup: "distinct (map fst recent)"
      and urls: "\<forall>x \<in> set recent. link_of cfg client x \<noteq> None"
      and inj: "inj_on (strftime cfg) {cutoff..target}"
      by (auto simp: recent_def)
    have "length recent = length (map fst recent)" by simp
    also have "\<dots> = card (set (map fst recent))" using distinct_card [OF nodup] by simp
    also have "\<dots> = card {cutoff..target}" using cover by simp
    also have "\<dots> = nat days" using cut by simp
    finally have lr: "length recent = nat days" .
    show ?thesis
    proof (cases "days = 0")
      case True
      then have "links = []" by (rule a)
      moreover have "{cutoff..target} = {}" using True cut by simp
      ultimately show ?thesis using True by simp
    next
      case False
      then have "recent \<noteq> []" using lr h by auto
      then have "dated_of cfg (keys_of pages) \<noteq> []"
        by (auto simp: recent_def recent_documents_def sort_rev_def)
      then have ne: "keys_of pages \<noteq> []" by (auto simp: dated_of_def List.map_filter_simps)
      from h ne get_past_papers_serves [where cfg = cfg and days_arg = days_arg and target = target
          and cutoff = cutoff and c = c and w = w and pages = pages] run
      have "links = sort_rev fst (take (nat days) (List.map_filter (link_of cfg client) recent))"
        unfolding days_def recent_def by auto
      also have "List.map_filter (link_of cfg client) recent
                   = map (\<lambda>x. the (link_of cfg client x)) recent"
        using urls by (rule map_filter_all_Some)
      finally have links: "links = sort_rev fst (map (\<lambda>x. the (link_of cfg client x)) recent)"
        using lr by simp
      have "fst ` set links = (\<lambda>x. fst (the (link_of cfg client x))) ` set recent"
        unfolding links by (simp add: image_image)
      also have "\<dots> = (\<lambda>x. strftime cfg (fst x)) ` set recent"
      proof (rule image_cong)
        fix x assume "x \<in> set recent"
        then have "link_of cfg client x \<noteq> None" using urls by blast
        then show "fst (the (link_of cfg client x)) = strftime cfg (fst x)" by (rule fst_link_of)
      qed simp
      also have "\<dots> = strftime cfg ` (fst ` set recent)" by (simp add: image_image)
      finally have dates: "fst ` set links = strftime cfg ` {cutoff..target}" using cover by simp
      have "card (fst ` set links) = card {cutoff..target}"
        unfolding dates using inj by (rule card_image)
      then have "card (fst ` set links) = nat days" using cut by simp
      moreover have "length links = nat days" unfolding links using lr by simp
      ultimately show ?thesis using dates by simp
    qed
  qed
  show ?thesis unfolding days_def [symmetric] using a b by blast
qed

theorem one_document_per_date_gives_d_dates_witness:
  "\<exists>w'. get_past_papers_from_storage default_config (Some (fake_s3 3)) (ymd2ord 2024 6 7)
           (Some 2) (world0 sample_bucket)
         = Some ([(''2024-06-07'', ''https://bucket.example/2024-06-07_newspaper.pdf''),
                  (''2024-06-06'', ''https://bucket.example/2024-06-06_newspaper.pdf'')], w')
     \<and> serves (fake_s3 3) (st (world0 sample_bucket)) [] None sample_pages
     \<and> (\<forall>p \<in> set sample_pages. Contents p \<noteq> None)
     \<and> date_minus_days (ymd2ord 2024 6 7) (2 - 1) = Inr (ymd2ord 2024 6 6)
     \<and> fst ` set (recent_documents default_config (ymd2ord 2024 6 6) (ymd2ord 2024 6 7)
                    (keys_of sample_pages)) = {ymd2ord 2024 6 6..ymd2ord 2024 6 7}
     \<and> distinct (map fst (recent_documents default_config (ymd2ord 2024 6 6) (ymd2ord 2024 6 7)
                    (keys_of sample_pages)))
     \<and> (\<forall>x \<in> set (recent_documents default_config (ymd2ord 2024 6 6) (ymd2ord 2024 6 7)
                    (keys_of sample_pages)).
           link_of default_config (Some (fake_s3 3)) x \<noteq> None)
     \<and> inj_on (strftime default_config) {ymd2ord 2024 6 6..ymd2ord 2024 6 7}
     \<and> card (fst ` set [(''2024-06-07'', ''https://bucket.example/2024-06-07_newspaper.pdf''),
                        (''2024-06-06'', ''https://bucket.example/2024-06-06_newspaper.pdf'')])
         = nat 2"
proof -
  let ?w = "world0 sample_bucket"
  let ?t = "ymd2ord 2024 6 7"
  let ?cut = "ymd2ord 2024 6 6"
  let ?recent = "recent_documents default_config ?cut ?t (keys_of sample_pages)"
  let ?links = "[(''2024-06-07'', ''https://bucket.example/2024-06-07_newspaper.pdf''),
                  (''2024-06-06'', ''https://bucket.example/2024-06-06_newspaper.pdf'')]"
  have sv: "serves (fake_s3 3) (st ?w) [] None sample_pages"
    "\<forall>p \<in> set sample_pages. Contents p \<noteq> None" "keys_of sample_pages \<noteq> []"
    using sample_pages_served by (simp_all add: world0_def)
  have c1: "date_minus_days ?t
              ((case Some 2 of None \<Rightarrow> RETENTION_DAYS default_config | Some d \<Rightarrow> d) - 1)
            = Inr ?cut"
    by code_simp
  have c1': "date_minus_days ?t (2 - 1) = Inr ?cut" by code_simp
  have d0: "(0::int) \<le> (case Some 2 of None \<Rightarrow> RETENTION_DAYS default_config | Some d \<Rightarrow> d)"
    by simp
  have t: "?t = 739044" and cu: "?cut = 739043" by code_simp+
  have rec: "?recent = [(739044, ''2024-06-07_newspaper.pdf''), (739043, ''2024-06-06_newspaper.pdf'')]"
    by code_simp
  have iv: "{739043..739044::int} = {739043, 739044}" by auto
  have "fst ` set ?recent = {739043, 739044}" unfolding rec by auto
  then have cover: "fst ` set ?recent = {?cut..?t}" unfolding t cu iv .
  have nodup: "distinct (map fst ?recent)" unfolding rec by simp
  have urls: "\<forall>x \<in> set ?recent. link_of default_config (Some (fake_s3 3)) x \<noteq> None"
    unfolding rec by (simp add: link_of_def url_of_def fake_s3_def)
  have v1: "strftime_ymd 739043 = ''2024-06-06''" and v2: "strftime_ymd 739044 = ''2024-06-07''"
    by code_simp+
  have "inj_on (strftime default_config) {739043, 739044}"
    by (simp add: default_config_def v1 v2)
  then have inj: "inj_on (strftime default_config) {?cut..?t}"
    unfolding t cu iv .
  have e: "sort_rev fst
              (take (nat (case Some 2 of None \<Rightarrow> RETENTION_DAYS default_config | Some d \<Rightarrow> d))
                 (List.map_filter (link_of default_config (Some (fake_s3 3))) ?recent))
            = ?links"
    by code_simp
  from get_past_papers_serves [OF sv c1, unfolded e]
  obtain w1 where p: "get_past_papers_from_storage default_config (Some (fake_s3 3)) ?t
       (Some 2) ?w = Some (?links, w1)" by (elim exE conjE)
  note inst = one_document_per_date_gives_d_dates [OF p, THEN conjunct2, rule_format]
  have h: "0 \<le> (case Some 2 of None \<Rightarrow> RETENTION_DAYS default_config | Some d \<Rightarrow> d)
             \<and> Some (fake_s3 3) = Some (fake_s3 3) \<and> serves (fake_s3 3) (st ?w) [] None sample_pages
             \<and> (\<forall>p \<in> set sample_pages. Contents p \<noteq> None)
             \<and> date_minus_days ?t
                  ((case Some 2 of None \<Rightarrow> RETENTION_DAYS default_config | Some d \<Rightarrow> d) - 1) = Inr ?cut
             \<and> fst ` set ?recent = {?cut..?t}
             \<and> distinct (map fst ?recent)
             \<and> (\<forall>x \<in> set ?recent. link_of default_config (Some (fake_s3 3)) x \<noteq> None)
             \<and> inj_on (strftime default_config) {?cut..?t}"
    by (intro conjI refl d0 sv c1 cover nodup urls inj)
  note cd = inst [OF h, THEN conjunct2, THEN conjunct1]
  have card: "card (fst ` set ?links) = nat 2" using cd by (simp only: option.simps)
  show ?thesis
    apply (rule exI [of _ w1])
    apply (intro conjI)
            apply (rule p)
           apply (rule sv(1))
          apply (rule sv(2))
         apply (rule c1')
        apply (rule cover)
       apply (rule nodup)
      apply (rule urls)
     apply (rule inj)
    apply (rule card)
    done
qed

section \<open>Proofs about storage.py\<close>

subsection \<open>The paginator\<close>

lemma next_token_Some:
  "IsTruncated page \<Longrightarrow> NextContinuationToken page = Some t \<Longrightarrow> t \<noteq> [] \<Longrightarrow> next_token page = Some t"
  by (simp add: next_token_def)

lemma next_token_None:
  "NextContinuationToken page = None \<or> NextContinuationToken page = Some [] \<Longrightarrow> next_token page = None"
  by (auto simp: next_token_def)

lemma paginate_yields:
  assumes "yields c (st w) prefix tok pages"
  shows "\<exists>w1. paginate c prefix tok acc w = Some ((acc @ pages, None), w1)
              \<and> st w1 = st w \<and> logs w1 = logs w
              \<and> calls w1 = calls w @ page_calls prefix tok pages"
  using assms
proof (induction pages arbitrary: tok acc w)
  case Nil
  then show ?case by simp
next
  case (Cons page rest)
  show ?case
  proof (cases "rest = []")
    case True
    with Cons.prems have l: "list_objects_v2 c (st w) prefix tok = Inr page"
      and n: "next_token page = None"
      by (simp_all add: next_token_None)
    show ?thesis using True l n
      by (subst paginate.simps) (simp add: page_calls_def)
  next
    case False
    with Cons.prems obtain t where l: "list_objects_v2 c (st w) prefix tok = Inr page"
      and t: "NextContinuationToken page = Some t" "IsTruncated page" "t \<noteq> []" "tok \<noteq> Some t"
      and s: "yields c (st (invoke (ListObjectsV2 prefix tok) w)) prefix (Some t) rest"
      by auto
    have n: "next_token page = Some t" using t by (simp add: next_token_Some)
    from Cons.IH [OF s, of "acc @ [page]"] obtain w1 where
      "paginate c prefix (Some t) (acc @ [page]) (invoke (ListObjectsV2 prefix tok) w)
         = Some (((acc @ [page]) @ rest, None), w1)"
      "st w1 = st w" "logs w1 = logs w"
      "calls w1 = calls w @ ListObjectsV2 prefix tok # page_calls prefix (Some t) rest"
      by auto
    moreover have "page_calls prefix tok (page # rest)
                     = ListObjectsV2 prefix tok # page_calls prefix (Some t) rest"
      using False t by (cases rest) (simp_all add: page_calls_def)
    ultimately show ?thesis using l n t(4)
      by (subst paginate.simps) simp
  qed
qed

lemma paginate_raises_after:
  assumes "raises_after c (st w) prefix tok pages e"
  shows "\<exists>w1. paginate c prefix tok acc w = Some ((acc @ pages, Some e), w1)"
  using assms
proof (induction pages arbitrary: tok acc w)
  case Nil
  then show ?case by (subst paginate.simps) simp
next
  case (Cons page rest)
  then obtain t where l: "list_objects_v2 c (st w) prefix tok = Inr page"
    and t: "NextContinuationToken page = Some t" "IsTruncated page" "t \<noteq> []"
    by auto
  have n: "next_token page = Some t" using t by (simp add: next_token_Some)
  show ?case
  proof (cases "tok = Some t")
    case True
    with Cons.prems t have "rest = []" "e = PaginationError" by simp_all
    then show ?thesis using l n True by (subst paginate.simps) simp
  next
    case False
    with Cons.prems t
    have s: "raises_after c (st (invoke (ListObjectsV2 prefix tok) w)) prefix (Some t) rest e"
      by auto
    from Cons.IH [OF s, of "acc @ [page]"] obtain w1 where
      "paginate c prefix (Some t) (acc @ [page]) (invoke (ListObjectsV2 prefix tok) w)
         = Some (((acc @ [page]) @ rest, Some e), w1)"
      by auto
    then show ?thesis using l n False by (subst paginate.simps) simp
  qed
qed

lemma paginate_frame_aux:
  assumes "paginate c prefix tok acc w = Some y"
  shows "st (snd y) = st w \<and> logs (snd y) = logs w
         \<and> (\<exists>cs. calls (snd y) = calls w @ cs \<and> (\<forall>x \<in> set cs. is_list_call x))"
  using assms
proof (induction c prefix tok acc w y rule: paginate.raw_induct [rotated 1, consumes 1])
  case (1 pg c prefix tok acc w y)
  show ?case
  proof (cases "list_objects_v2 c (st w) prefix tok")
    case (Inl e)
    then show ?thesis using 1(2) by (auto simp: is_list_call_def)
  next
    case (Inr page)
    show ?thesis
    proof (cases "next_token page")
      case None
      then show ?thesis using 1(2) Inr by (auto simp: is_list_call_def)
    next
      case (Some t)
      show ?thesis
      proof (cases "tok = Some t")
        case True
        then show ?thesis using 1(2) Inr Some by (auto simp: is_list_call_def)
      next
        case False
        with 1(2) Inr Some have "pg c prefix (Some t) (acc @ [page])
                               (invoke (ListObjectsV2 prefix tok) w) = Some y" by simp
        from 1(1) [OF this] obtain cs where
          "st (snd y) = st w" "logs (snd y) = logs w"
          "calls (snd y) = calls w @ ListObjectsV2 prefix tok # cs"
          "\<forall>x \<in> set cs. is_list_call x" by auto
        then show ?thesis
          by (intro conjI exI [of _ "ListObjectsV2 prefix tok # cs"]) (auto simp: is_list_call_def)
      qed
    qed
  qed
qed

lemma paginate_frame:
  assumes "paginate c prefix tok acc w = Some (r, w1)"
  shows "st w1 = st w \<and> logs w1 = logs w
         \<and> (\<exists>cs. calls w1 = calls w @ cs \<and> (\<forall>x \<in> set cs. is_list_call x))"
  using paginate_frame_aux [OF assms] by simp

subsection \<open>Enumeration\<close>

lemma filter_error_map_debug [simp]:
  "filter is_error_record (map (\<lambda>x. (DEBUG, f x, g x)) xs) = []"
  "filter is_error_record (map (\<lambda>x. (INFO, f x, g x)) xs) = []"
  by (induction xs) (simp_all add: is_error_record_def)

lemma is_error_record_simps [simp]:
  "is_error_record (ERROR, m, as)" "\<not> is_error_record (INFO, m, as)"
  "\<not> is_error_record (DEBUG, m, as)" "\<not> is_error_record (WARNING, m, as)"
  by (simp_all add: is_error_record_def)

lemma list_more_breaks:
  assumes "IsTruncated response" "NextContinuationToken response \<noteq> None"
    and "breaks c (st w) [] (NextContinuationToken response) rest e"
  shows "\<exists>e' w1. list_more c response files w = Some (Inl e', w1)"
  using assms
proof (induction rest arbitrary: response files w)
  case Nil
  then show ?case by (subst list_more.simps) auto
next
  case (Cons page rest)
  from Cons.prems obtain tok where tok: "NextContinuationToken response = Some tok" by auto
  from Cons.prems tok have l: "list_objects_v2 c (st w) [] (Some tok) = Inr page"
    and t: "IsTruncated page" "NextContinuationToken page \<noteq> None"
    and b: "breaks c (st w) [] (NextContinuationToken page) rest e"
    by auto
  show ?case
  proof (cases "Contents page")
    case None
    then show ?thesis using Cons.prems(1) tok l by (subst list_more.simps) simp
  next
    case (Some objs)
    let ?w = "emit INFO ''Retrieved additional %d files from paginated response.''
              [I (int (length objs))] (invoke (ListObjectsV2 [] (Some tok)) w)"
    have "breaks c (st ?w) [] (NextContinuationToken page) rest e" using b by simp
    from Cons.IH [OF t this, of "files @ map Key objs"]
    show ?thesis using Cons.prems(1) tok l Some by (subst list_more.simps) simp
  qed
qed

lemma list_storage_files_breaks:
  assumes "breaks c (st w) [] None pages e" and "pages = [] \<or> Contents (hd pages) \<noteq> None"
  shows "\<exists>w1. list_storage_files (Some c) w = Some (None, w1)"
proof (cases pages)
  case Nil
  then show ?thesis using assms by (simp add: list_storage_files_def Let_def)
next
  case (Cons page rest)
  with assms obtain objs where l: "list_objects_v2 c (st w) [] None = Inr page"
    and c: "Contents page = Some objs"
    and t: "IsTruncated page" "NextContinuationToken page \<noteq> None"
    and b: "breaks c (st w) [] (NextContinuationToken page) rest e"
    by auto
  let ?w = "emit INFO ''Found %d files in storage.'' [I (int (length objs))]
              (invoke (ListObjectsV2 [] None) (emit INFO ''Listing files in s3://%s'' [] w))"
  have "breaks c (st ?w) [] (NextContinuationToken page) rest e" using b by simp
  from list_more_breaks [OF t this, of "map Key objs"] obtain e' w1 where
    "list_more c page (map Key objs) ?w = Some (Inl e', w1)" by blast
  then show ?thesis using l c by (simp add: list_storage_files_def Let_def)
qed

lemma list_archive_files_yields:
  assumes "yields c (st w) prefix None pages"
  shows "\<exists>w'. list_archive_files (Some c) now prefix False w
               = Some (concat (map contents_of pages), w')
             \<and> st w' = st w \<and> new_calls w w' = page_calls prefix None pages"
proof -
  let ?w = "emit INFO ''Listing files in s3://%s/%s'' [S prefix] w"
  have "yields c (st ?w) prefix None pages" using assms by simp
  from paginate_yields [OF this, of "[]"] obtain w1 where
    "paginate c prefix None [] ?w = Some ((pages, None), w1)" "st w1 = st w"
    "calls w1 = calls w @ page_calls prefix None pages" by auto
  then show ?thesis by (simp add: list_archive_files_def Let_def new_calls_def)
qed

lemma list_archive_files_raises:
  assumes "raises_after c (st w) prefix None pages e"
  shows "\<exists>w'. list_archive_files (Some c) now prefix False w = Some ([], w')
             \<and> st w' = st w
             \<and> filter is_error_record (new_logs w w')
                 = [if e = ClientError
                    then (ERROR, ''Failed to list S3 objects with prefix '%s': %s'', [S prefix, E e])
                    else (ERROR, ''An unexpected error occurred listing S3 files: %s'', [E e])]"
proof -
  let ?w = "emit INFO ''Listing files in s3://%s/%s'' [S prefix] w"
  have "raises_after c (st ?w) prefix None pages e" using assms by simp
  from paginate_raises_after [OF this, of "[]"] obtain w1 where
    pg: "paginate c prefix None [] ?w = Some ((pages, Some e), w1)" by auto
  from paginate_frame [OF pg] have f: "st w1 = st w" "logs w1 = logs ?w" by simp_all
  show ?thesis using pg f
    by (simp add: list_archive_files_def Let_def new_logs_def)
qed

lemma sample_pages_yielded: "yields (fake_s3 3) sample_bucket [] None sample_pages"
  by code_simp

text \<open>
  C7, as stated, fails. The store answers the first page of the bucket and refuses
  the next request: \<^verbatim>\<open>list_archive_files\<close> returns the empty list, the very
  result it gives on an empty bucket.
\<close>

theorem failed_listing_returns_empty_list:
  "raises_after flaky_s3 sample_bucket [] None [hd sample_pages] ClientError
   \<and> map_option fst (list_archive_files (Some flaky_s3) (739047 * MICROS_PER_DAY) [] False
                        (world0 sample_bucket)) = Some []
   \<and> map_option fst (list_archive_files (Some (fake_s3 3)) (739047 * MICROS_PER_DAY) [] False
                        (world0 [])) = Some []"
  by code_simp

text \<open>
  C7, amended. On a store whose paginator hands over N pages, \<^verbatim>\<open>list_archive_files\<close>
  returns the objects of the pages, concatenated in order, each once, after one request
  per page along the continuation tokens; so does \<^verbatim>\<open>list_storage_files\<close> for
  the keys, on a store that serves N pages to its own loop, when every page has its
  \<^verbatim>\<open>Contents\<close>. When a request of the listing raises,
  \<^verbatim>\<open>list_storage_files\<close> returns \<^verbatim>\<open>None\<close>; when the paginator raises,
  \<^verbatim>\<open>list_archive_files\<close> logs one error record and returns the empty list.
\<close>

theorem enumeration_over_pages:
  "(yields c (st w) prefix None pages
      \<longrightarrow> (\<exists>w'. list_archive_files (Some c) now prefix False w
                   = Some (concat (map contents_of pages), w')
                \<and> st w' = st w \<and> new_calls w w' = page_calls prefix None pages))
   \<and> (serves c (st w) [] None pages \<and> (\<forall>p \<in> set pages. Contents p \<noteq> None)
      \<longrightarrow> (\<exists>w'. list_storage_files (Some c) w
                   = Some (Some (map Key (concat (map contents_of pages))), w')
                \<and> st w' = st w \<and> new_calls w w' = page_calls [] None pages))
   \<and> (breaks cb (st wb) [] None pagesb e \<and> (pagesb = [] \<or> Contents (hd pagesb) \<noteq> None)
      \<longrightarrow> (\<exists>w'. list_storage_files (Some cb) wb = Some (None, w')))
   \<and> (raises_after cb (st wb) prefixb None pagesb e
      \<longrightarrow> (\<exists>w'. list_archive_files (Some cb) now prefixb False wb = Some ([], w')
                \<and> st w' = st wb
                \<and> filter is_error_record (new_logs wb w')
                    = [if e = ClientError
                       then (ERROR, ''Failed to list S3 objects with prefix '%s': %s'',
                             [S prefixb, E e])
                       else (ERROR, ''An unexpected error occurred listing S3 files: %s'',
                             [E e])]))"
proof (intro conjI impI)
  assume "yields c (st w) prefix None pages"
  then show "\<exists>w'. list_archive_files (Some c) now prefix False w
                   = Some (concat (map contents_of pages), w')
                \<and> st w' = st w \<and> new_calls w w' = page_calls prefix None pages"
    by (rule list_archive_files_yields)
next
  assume "serves c (st w) [] None pages \<and> (\<forall>p \<in> set pages. Contents p \<noteq> None)"
  then have "\<exists>w1. list_storage_files (Some c) w = Some (Some (keys_of pages), w1)
              \<and> st w1 = st w \<and> calls w1 = calls w @ page_calls [] None pages"
    using list_storage_files_serves by blast
  then show "\<exists>w'. list_storage_files (Some c) w
                   = Some (Some (map Key (concat (map contents_of pages))), w')
                \<and> st w' = st w \<and> new_calls w w' = page_calls [] None pages"
    by (auto simp: keys_of_def)
next
  assume "breaks cb (st wb) [] None pagesb e \<and> (pagesb = [] \<or> Contents (hd pagesb) \<noteq> None)"
  then show "\<exists>w'. list_storage_files (Some cb) wb = Some (None, w')"
    using list_storage_files_breaks by blast
next
  assume "raises_after cb (st wb) prefixb None pagesb e"
  then show "\<exists>w'. list_archive_files (Some cb) now prefixb False wb = Some ([], w')
                \<and> st w' = st wb
                \<and> filter is_error_record (new_logs wb w')
                    = [if e = ClientError
                       then (ERROR, ''Failed to list S3 objects with prefix '%s': %s'',
                             [S prefixb, E e])
                       else (ERROR, ''An unexpected error occurred listing S3 files: %s'',
                             [E e])]"
    by (rule list_archive_files_raises)
qed

theorem enumeration_over_pages_witness:
  "yields (fake_s3 3) (st (world0 sample_bucket)) [] None sample_pages
   \<and> serves (fake_s3 3) (st (world0 sample_bucket)) [] None sample_pages
   \<and> None \<notin> set (map Contents sample_pages)
   \<and> breaks flaky_s3 (st (world0 sample_bucket)) [] None [hd sample_pages] ClientError
   \<and> Contents (hd [hd sample_pages]) \<noteq> None
   \<and> raises_after flaky_s3 (st (world0 sample_bucket)) [] None [hd sample_pages] ClientError
   \<and> raises_after stuck_s3 (st (world0 sample_bucket)) [] None
        [hd sample_pages, hd sample_pages] PaginationError
   \<and> (\<exists>w'. list_archive_files (Some (fake_s3 3)) (739047 * MICROS_PER_DAY) [] False (world0 sample_bucket)
              = Some (concat (map contents_of sample_pages), w')
            \<and> new_calls (world0 sample_bucket) w' = page_calls [] None sample_pages)
   \<and> (\<exists>w'. list_storage_files (Some (fake_s3 3)) (world0 sample_bucket)
              = Some (Some (map Key (concat (map contents_of sample_pages))), w'))
   \<and> (\<exists>w'. list_storage_files (Some flaky_s3) (world0 sample_bucket) = Some (None, w'))
   \<and> (\<exists>w'. list_archive_files (Some flaky_s3) (739047 * MICROS_PER_DAY) [] False (world0 sample_bucket)
              = Some ([], w')
            \<and> filter is_error_record (new_logs (world0 sample_bucket) w')
                = [(ERROR, ''Failed to list S3 objects with prefix '%s': %s'',
                    [S [], E ClientError])])
   \<and> (\<exists>w'. list_archive_files (Some stuck_s3) (739047 * MICROS_PER_DAY) [] False (world0 sample_bucket)
              = Some ([], w')
            \<and> filter is_error_record (new_logs (world0 sample_bucket) w')
                = [(ERROR, ''An unexpected error occurred listing S3 files: %s'',
                    [E PaginationError])])
   \<and> concat (map contents_of sample_pages) = sample_bucket"
proof -
  let ?w = "world0 sample_bucket"
  let ?now = "739047 * MICROS_PER_DAY"
  have sv: "serves (fake_s3 3) (st ?w) [] None sample_pages"
    and ct: "\<forall>p \<in> set sample_pages. Contents p \<noteq> None"
    using sample_pages_served by (simp_all add: world0_def)
  have yl: "yields (fake_s3 3) (st ?w) [] None sample_pages"
    using sample_pages_yielded by (simp add: world0_def)
  have st0: "st ?w = sample_bucket" by (simp add: world0_def)
  have facts: "breaks flaky_s3 sample_bucket [] None [hd sample_pages] ClientError
        \<and> Contents (hd [hd sample_pages]) \<noteq> None
        \<and> raises_after flaky_s3 sample_bucket [] None [hd sample_pages] ClientError
        \<and> raises_after stuck_s3 sample_bucket [] None
             [hd sample_pages, hd sample_pages] PaginationError"
    by code_simp
  have br: "breaks flaky_s3 (st ?w) [] None [hd sample_pages] ClientError"
    unfolding st0 by (rule facts [THEN conjunct1])
  have hc: "Contents (hd [hd sample_pages]) \<noteq> None"
    by (rule facts [THEN conjunct2, THEN conjunct1])
  have ra: "raises_after flaky_s3 (st ?w) [] None [hd sample_pages] ClientError"
    unfolding st0 by (rule facts [THEN conjunct2, THEN conjunct2, THEN conjunct1])
  have rs: "raises_after stuck_s3 (st ?w) [] None
               [hd sample_pages, hd sample_pages] PaginationError"
    unfolding st0 by (rule facts [THEN conjunct2, THEN conjunct2, THEN conjunct2])
  have cc: "concat (map contents_of sample_pages) = sample_bucket" by code_simp
  note inst = enumeration_over_pages [where c = "fake_s3 3" and w = ?w and prefix = "[]"
      and pages = sample_pages and cb = flaky_s3 and wb = ?w and prefixb = "[]"
      and pagesb = "[hd sample_pages]" and e = ClientError and now = ?now]
  note i1 = inst [THEN conjunct1, rule_format, OF yl]
  note i2 = inst [THEN conjunct2, THEN conjunct1, rule_format, OF conjI, OF sv ct]
  note i3 = inst [THEN conjunct2, THEN conjunct2, THEN conjunct1, rule_format, OF conjI,
      OF br disjI2, OF hc]
  note i4 = inst [THEN conjunct2, THEN conjunct2, THEN conjunct2, rule_format, OF ra]
  note i5 = enumeration_over_pages [where cb = stuck_s3 and wb = ?w and prefixb = "[]"
      and pagesb = "[hd sample_pages, hd sample_pages]" and e = PaginationError and now = ?now,
      THEN conjunct2, THEN conjunct2, THEN conjunct2, rule_format, OF rs]
  from i1 have i1': "\<exists>w'. list_archive_files (Some (fake_s3 3)) ?now [] False ?w
              = Some (concat (map contents_of sample_pages), w')
            \<and> new_calls ?w w' = page_calls [] None sample_pages" by blast
  from i2 have i2': "\<exists>w'. list_storage_files (Some (fake_s3 3)) ?w
              = Some (Some (map Key (concat (map contents_of sample_pages))), w')" by blast
  from i4 obtain w4 where
    r4: "list_archive_files (Some flaky_s3) ?now [] False ?w = Some ([], w4)"
    and l4: "filter is_error_record (new_logs ?w w4)
               = [if ClientError = ClientError
                  then (ERROR, ''Failed to list S3 objects with prefix '%s': %s'',
                        [S [], E ClientError])
                  else (ERROR, ''An unexpected error occurred listing S3 files: %s'',
                        [E ClientError])]"
    by (elim exE conjE)
  have l4': "filter is_error_record (new_logs ?w w4)
               = [(ERROR, ''Failed to list S3 objects with prefix '%s': %s'',
                   [S [], E ClientError])]"
    unfolding l4 by (simp only: if_True refl)
  have i4': "\<exists>w'. list_archive_files (Some flaky_s3) ?now [] False ?w = Some ([], w')
            \<and> filter is_error_record (new_logs ?w w')
                = [(ERROR, ''Failed to list S3 objects with prefix '%s': %s'',
                    [S [], E ClientError])]"
    by (intro exI [of _ w4] conjI r4 l4')
  from i5 obtain w5 where
    r5: "list_archive_files (Some stuck_s3) ?now [] False ?w = Some ([], w5)"
    and l5: "filter is_error_record (new_logs ?w w5)
               = [if PaginationError = ClientError
                  then (ERROR, ''Failed to list S3 objects with prefix '%s': %s'',
                        [S [], E PaginationError])
                  else (ERROR, ''An unexpected error occurred listing S3 files: %s'',
                        [E PaginationError])]"
    by (elim exE conjE)
  have ne: "(PaginationError = ClientError) = False" by simp
  have l5': "filter is_error_record (new_logs ?w w5)
               = [(ERROR, ''An unexpected error occurred listing S3 files: %s'',
                   [E PaginationError])]"
    unfolding l5 ne by (simp only: if_False)
  have i5': "\<exists>w'. list_archive_files (Some stuck_s3) ?now [] False ?w = Some ([], w')
            \<and> filter is_error_record (new_logs ?w w')
                = [(ERROR, ''An unexpected error occurred listing S3 files: %s'',
                    [E PaginationError])]"
    by (intro exI [of _ w5] conjI r5 l5')
  have ct': "None \<notin> set (map Contents sample_pages)" using ct by force
  show ?thesis
    by (intro conjI yl sv ct' br hc ra rs i1' i2' i3 i4' i5' cc)
qed

subsection \<open>The batch loop\<close>

lemma batches_of_Nil [simp]: "batches_of n [] = []"
  by (simp add: batches_of.simps)

lemma batches_of_drop:
  "i < length xs \<Longrightarrow>
   batches_of 1000 (drop i xs) = take 1000 (drop i xs) # batches_of 1000 (drop (i + 1000) xs)"
  by (subst batches_of.simps) (simp add: add.commute)

lemma batches_of_drop_all: "\<not> i < length xs \<Longrightarrow> batches_of 1000 (drop i xs) = []"
  by simp

lemma delete_batches_spec:
  "fst (delete_batches c files i n w)
     = (first_error c (st w) (batches_of 1000 (drop i files)),
        n + tally c (st w) (batches_of 1000 (drop i files)))
   \<and> calls (snd (delete_batches c files i n w))
     = calls w @ map DeleteObjects (issued c (st w) (batches_of 1000 (drop i files)))"
proof (induction c files i n w rule: delete_batches.induct)
  case (1 c files i n w)
  show ?case
  proof (cases "i < length files")
    case False
    then show ?thesis by (subst (1 2) delete_batches.simps) (simp add: batches_of_drop_all)
  next
    case True
    obtain r s' where d: "delete_objects c (st w) (take 1000 (drop i files)) = (r, s')"
      by (cases "delete_objects c (st w) (take 1000 (drop i files))")
    show ?thesis
    proof (cases r)
      case (Inl e)
      then show ?thesis using True d
        by (subst (1 2) delete_batches.simps) (simp add: batches_of_drop)
    next
      case (Inr response)
      let ?w = "emit_all (batch_log response)
                  ((invoke (DeleteObjects (take 1000 (drop i files))) w)\<lparr>st := s'\<rparr>)"
      have s: "st ?w = s'" and c: "calls ?w = calls w @ [DeleteObjects (take 1000 (drop i files))]"
        by simp_all
      from "1.IH" [OF True d [symmetric] Inr]
      have "fst (delete_batches c files (i + 1000) (n + length (deleted_of response)) ?w)
              = (first_error c s' (batches_of 1000 (drop (i + 1000) files)),
                 n + length (deleted_of response) + tally c s' (batches_of 1000 (drop (i + 1000) files)))
            \<and> calls (snd (delete_batches c files (i + 1000) (n + length (deleted_of response)) ?w))
              = calls w @ DeleteObjects (take 1000 (drop i files))
                  # map DeleteObjects (issued c s' (batches_of 1000 (drop (i + 1000) files)))"
        unfolding s c by simp
      then show ?thesis using True d Inr
        by (subst (1 2) delete_batches.simps) (simp add: batches_of_drop)
    qed
  qed
qed

subsection \<open>delete_old_files on a listing that ends or raises\<close>

lemma delete_old_files_yields:
  assumes sv: "yields c (st w) prefix None pages"
    and cut: "datetime_minus_days now days = Inr cutoff"
  shows "\<exists>w'. delete_old_files (Some c) now days prefix dry_run w
               = Some (Inr (if map Key (marked_objects cutoff pages) = [] then 0
                            else if dry_run then length (map Key (marked_objects cutoff pages))
                            else purge_count c (st w)
                                   (batches_of 1000 (map Key (marked_objects cutoff pages)))), w')
             \<and> new_calls w w'
                 = page_calls prefix None pages
                   @ (if dry_run then []
                      else map DeleteObjects
                             (issued c (st w) (batches_of 1000 (map Key (marked_objects cutoff pages)))))
             \<and> (dry_run \<longrightarrow> st w' = st w)
             \<and> (dry_run \<or> map Key (marked_objects cutoff pages) = []
                  \<longrightarrow> filter is_error_record (new_logs w w') = [])"
proof -
  define keys where "keys = map Key (marked_objects cutoff pages)"
  let ?w0 = "emit INFO (''Deleting files older than %s (%d days) with prefix '%s'' @ [CHR 0x27])
               [I cutoff, I days, S prefix] w"
  have "yields c (st ?w0) prefix None pages" using sv by simp
  from paginate_yields [OF this, of "[]"] obtain w1 where
    pg: "paginate c prefix None [] ?w0 = Some ((pages, None), w1)"
    and f1: "st w1 = st w" "calls w1 = calls w @ page_calls prefix None pages"
      "logs w1 = logs w @ [(INFO, ''Deleting files older than %s (%d days) with prefix '%s'' @ [CHR 0x27],
                           [I cutoff, I days, S prefix])]"
    by auto
  let ?w2 = "emit_all (map (\<lambda>obj. (DEBUG, ''Marked for deletion: %s (Last Modified: %s)'',
                                           [S (Key obj), I (LastModified obj)]))
                                (marked_objects cutoff pages)) w1"
  show ?thesis
  proof (cases "keys = []")
    case True
    then show ?thesis using pg cut f1 unfolding keys_def
      by (simp add: delete_old_files_def Let_def new_calls_def new_logs_def)
  next
    case ne: False
    show ?thesis
    proof (cases dry_run)
      case True
      then show ?thesis using pg cut f1 ne unfolding keys_def
        by (simp add: delete_old_files_def Let_def new_calls_def new_logs_def)
    next
      case False
      obtain err n w3 where db: "delete_batches c keys 0 0 ?w2 = ((err, n), w3)"
        by (cases "delete_batches c keys 0 0 ?w2") auto
      from delete_batches_spec [of c keys 0 0 ?w2] db f1
      have err: "err = first_error c (st w) (batches_of 1000 keys)"
        and n: "n = tally c (st w) (batches_of 1000 keys)"
        and c3: "calls w3 = calls w @ page_calls prefix None pages
                    @ map DeleteObjects (issued c (st w) (batches_of 1000 keys))"
        by simp_all
      show ?thesis
      proof (cases err)
        case None
        then show ?thesis using pg cut ne False db err n c3 unfolding keys_def
          by (simp add: delete_old_files_def Let_def new_calls_def purge_count_def)
      next
        case (Some e)
        then show ?thesis using pg cut ne False db err n c3 unfolding keys_def
          by (simp add: delete_old_files_def Let_def new_calls_def purge_count_def)
      qed
    qed
  qed
qed

lemma delete_old_files_raises:
  assumes br: "raises_after c (st w) prefix None pages e"
    and cut: "datetime_minus_days now days = Inr cutoff"
  shows "\<exists>w'. delete_old_files (Some c) now days prefix dry_run w = Some (Inr 0, w')
             \<and> st w' = st w
             \<and> (\<forall>x \<in> set (new_calls w w'). is_list_call x)
             \<and> filter is_error_record (new_logs w w')
                 = [(ERROR,
                     if e = ClientError then ''Error listing or preparing files for deletion: %s''
                     else ''Unexpected error during file deletion process: %s'',
                     [E e])]"
proof -
  let ?w0 = "emit INFO (''Deleting files older than %s (%d days) with prefix '%s'' @ [CHR 0x27])
               [I cutoff, I days, S prefix] w"
  have "raises_after c (st ?w0) prefix None pages e" using br by simp
  from paginate_raises_after [OF this, of "[]"] obtain w1 where
    pg: "paginate c prefix None [] ?w0 = Some ((pages, Some e), w1)" by auto
  from paginate_frame [OF pg] obtain cs where
    f1: "st w1 = st w" "calls w1 = calls w @ cs" "\<forall>x \<in> set cs. is_list_call x"
      "logs w1 = logs w @ [(INFO, ''Deleting files older than %s (%d days) with prefix '%s'' @ [CHR 0x27],
                           [I cutoff, I days, S prefix])]"
    by auto
  show ?thesis using pg cut f1
    by (simp add: delete_old_files_def Let_def new_calls_def new_logs_def)
qed

lemma delete_old_files_dry_run_frame:
  assumes "delete_old_files client now days prefix True w = Some (r, w')"
  shows "st w' = st w \<and> (\<forall>x \<in> set (new_calls w w'). is_list_call x)"
proof (cases client)
  case None
  then show ?thesis using assms by (auto simp: delete_old_files_def new_calls_def)
next
  case (Some c)
  show ?thesis
  proof (cases "datetime_minus_days now days")
    case (Inl e)
    then show ?thesis using assms Some by (auto simp: delete_old_files_def new_calls_def)
  next
    case (Inr cutoff)
    let ?w0 = "emit INFO (''Deleting files older than %s (%d days) with prefix '%s'' @ [CHR 0x27])
               [I cutoff, I days, S prefix] w"
    from assms Some Inr obtain ps err w1 where pg: "paginate c prefix None [] ?w0 = Some ((ps, err), w1)"
      by (auto simp: delete_old_files_def split: option.splits)
    from paginate_frame [OF pg] obtain cs where
      f1: "st w1 = st w" "calls w1 = calls w @ cs" "\<forall>x \<in> set cs. is_list_call x"
      by auto
    have "st w' = st w1 \<and> calls w' = calls w1"
      using assms Some Inr pg
      by (auto simp: delete_old_files_def Let_def split: option.splits if_splits)
    then show ?thesis using f1 by (simp add: new_calls_def)
  qed
qed

subsection \<open>Batches and replies\<close>

lemma batches_of_step:
  "xs \<noteq> [] \<Longrightarrow> batches_of 1000 xs = take 1000 xs # batches_of 1000 (drop 1000 xs)"
  by (subst batches_of.simps) simp








lemma issued_replies:
  "issued c s bs = take (Suc (length (takeWhile answered (replies c s bs)))) bs"
proof (induction bs arbitrary: s)
  case Nil
  then show ?case by simp
next
  case (Cons b bs)
  obtain r s' where d: "delete_objects c s b = (r, s')" by (cases "delete_objects c s b")
  show ?case using d Cons [of s'] by (cases r) (simp_all add: answered_def)
qed

lemma tally_replies:
  "tally c s bs = sum_list (map deleted_count (takeWhile answered (replies c s bs)))"
proof (induction bs arbitrary: s)
  case Nil
  then show ?case by simp
next
  case (Cons b bs)
  obtain r s' where d: "delete_objects c s b = (r, s')" by (cases "delete_objects c s b")
  show ?case using d Cons [of s'] by (cases r) (simp_all add: answered_def deleted_count_def)
qed


subsection \<open>Dry runs and failed listings\<close>

lemma list_call_not_delete: "is_list_call x \<Longrightarrow> \<not> is_delete_call x"
  by (cases x) (simp_all add: is_list_call_def is_delete_call_def)

text \<open>
  C6, as stated, fails. On 2024-06-11 with three days of retention, the dry run of
  \<^verbatim>\<open>delete_old_files\<close> returns 3: it counts the objects last modified before
  the cutoff, \<^verbatim>\<open>notes.txt\<close> among them. The keys whose date lies before the
  cutoff, the ones \<^verbatim>\<open>cleanup_old_files\<close> hands to
  \<^verbatim>\<open>delete_from_storage\<close>, are two. The number returned is the whole result, and
  it is not 0.
\<close>

theorem dry_run_count_is_by_modification_time:
  "map_option fst (delete_old_files (Some (fake_s3 3)) (739047 * MICROS_PER_DAY) 3 [] True
                     (world0 sample_bucket)) = Some (Inr 3)
   \<and> date_minus_days 739048 3 = Inr 739045
   \<and> filter (is_expired default_config 739045) (map Key sample_bucket)
       = [''2024-06-06_newspaper.pdf'', ''2024-06-07_newspaper.pdf'']
   \<and> map_option (attempted_keys \<circ> logs)
        (cleanup_old_files default_config (Some (fake_s3 3)) 739048 (Some 3) True
           (world0 sample_bucket))
       = Some [''2024-06-06_newspaper.pdf'', ''2024-06-07_newspaper.pdf'']"
  by code_simp

text \<open>
  C6, amended. A dry run of \<^verbatim>\<open>delete_old_files\<close> leaves the store as it was
  and sends no delete request, whatever the listing does. On a store whose paginator
  hands over the pages it returns one number, the count of the listed objects last
  modified before the cutoff, and logs no error. A dry run of
  \<^verbatim>\<open>delete_from_storage\<close> sends nothing and leaves the store as it was.
\<close>

theorem dry_run_purge_mutates_nothing:
  "(\<forall>r w'. delete_old_files client now days prefix True w = Some (r, w')
       \<longrightarrow> st w' = st w \<and> (\<forall>x \<in> set (new_calls w w'). \<not> is_delete_call x))
   \<and> (\<forall>c pages cutoff.
         client = Some c \<and> yields c (st w) prefix None pages
         \<and> datetime_minus_days now days = Inr cutoff
         \<longrightarrow> (\<exists>w'. delete_old_files client now days prefix True w
                      = Some (Inr (length (filter (\<lambda>obj. LastModified obj < cutoff)
                                             (concat (map contents_of pages)))), w')
                   \<and> filter is_error_record (new_logs w w') = []))
   \<and> (\<forall>b w'. delete_from_storage client k True w = (b, w')
         \<longrightarrow> st w' = st w \<and> calls w' = calls w)"
proof (intro conjI allI impI)
  fix r w'
  assume "delete_old_files client now days prefix True w = Some (r, w')"
  from delete_old_files_dry_run_frame [OF this]
  show "st w' = st w" and "\<forall>x \<in> set (new_calls w w'). \<not> is_delete_call x"
    by (auto dest: list_call_not_delete)
next
  fix c pages cutoff
  assume h: "client = Some c \<and> yields c (st w) prefix None pages
         \<and> datetime_minus_days now days = Inr cutoff"
  then have sv: "yields c (st w) prefix None pages"
    and cut: "datetime_minus_days now days = Inr cutoff" by simp_all
  have m: "filter (\<lambda>obj. LastModified obj < cutoff) (concat (map contents_of pages))
             = marked_objects cutoff pages"
    by (simp add: marked_objects_def)
  from delete_old_files_yields [OF sv cut, of True] h
  show "\<exists>w'. delete_old_files client now days prefix True w
                      = Some (Inr (length (filter (\<lambda>obj. LastModified obj < cutoff)
                                             (concat (map contents_of pages)))), w')
                   \<and> filter is_error_record (new_logs w w') = []"
    unfolding m by (cases "marked_objects cutoff pages = []") auto
next
  fix b w'
  assume "delete_from_storage client k True w = (b, w')"
  from delete_from_storage_frame [OF this]
  show "st w' = st w" and "calls w' = calls w" by auto
qed

theorem dry_run_purge_mutates_nothing_witness:
  "yields (fake_s3 3) (st (world0 sample_bucket)) [] None sample_pages
   \<and> datetime_minus_days (739047 * MICROS_PER_DAY) 3 = Inr (739044 * MICROS_PER_DAY)
   \<and> map Key (filter (\<lambda>obj. LastModified obj < 739044 * MICROS_PER_DAY)
                 (concat (map contents_of sample_pages)))
       = [''2024-06-06_newspaper.pdf'', ''2024-06-07_newspaper.pdf'', ''notes.txt'']
   \<and> (\<exists>w'. delete_old_files (Some (fake_s3 3)) (739047 * MICROS_PER_DAY) 3 [] True
               (world0 sample_bucket) = Some (Inr 3, w')
         \<and> st w' = sample_bucket
         \<and> (\<forall>x \<in> set (new_calls (world0 sample_bucket) w'). \<not> is_delete_call x)
         \<and> filter is_error_record (new_logs (world0 sample_bucket) w') = [])
   \<and> (\<exists>b w'. delete_from_storage (Some (fake_s3 3)) ''2024-06-06_newspaper.pdf'' True
                 (world0 sample_bucket) = (b, w')
         \<and> st w' = sample_bucket \<and> calls w' = [])"
proof -
  let ?w = "world0 sample_bucket"
  let ?c = "Some (fake_s3 3)"
  let ?now = "739047 * MICROS_PER_DAY"
  have sv: "yields (fake_s3 3) (st ?w) [] None sample_pages"
    using sample_pages_yielded by (simp add: world0_def)
  have cut: "datetime_minus_days ?now 3 = Inr (739044 * MICROS_PER_DAY)" by code_simp
  have ks: "map Key (filter (\<lambda>obj. LastModified obj < 739044 * MICROS_PER_DAY)
                       (concat (map contents_of sample_pages)))
              = [''2024-06-06_newspaper.pdf'', ''2024-06-07_newspaper.pdf'', ''notes.txt'']"
    by code_simp
  have n: "length (filter (\<lambda>obj. LastModified obj < 739044 * MICROS_PER_DAY)
                     (concat (map contents_of sample_pages))) = 3"
    using arg_cong [OF ks, of length] by simp
  have s0: "st ?w = sample_bucket" and c0: "calls ?w = []" by (simp_all add: world0_def)
  note inst = dry_run_purge_mutates_nothing [where client = ?c and now = ?now and days = 3
      and prefix = "[]" and w = ?w and k = "''2024-06-06_newspaper.pdf''"]
  note i1 = inst [THEN conjunct1, rule_format]
  note i2 = inst [THEN conjunct2, THEN conjunct1, rule_format, OF conjI, OF refl conjI, OF sv cut]
  note i3 = inst [THEN conjunct2, THEN conjunct2, rule_format]
  from i2 obtain w1 where
    r: "delete_old_files ?c ?now 3 [] True ?w = Some (Inr 3, w1)"
    and e: "filter is_error_record (new_logs ?w w1) = []"
    unfolding n by (elim exE conjE)
  note a = i1 [OF r]
  obtain b w2 where d: "delete_from_storage ?c ''2024-06-06_newspaper.pdf'' True ?w = (b, w2)"
    by (cases "delete_from_storage ?c ''2024-06-06_newspaper.pdf'' True ?w")
  note f = i3 [OF d]
  have p1: "\<exists>w'. delete_old_files ?c ?now 3 [] True ?w = Some (Inr 3, w')
         \<and> st w' = sample_bucket
         \<and> (\<forall>x \<in> set (new_calls ?w w'). \<not> is_delete_call x)
         \<and> filter is_error_record (new_logs ?w w') = []"
    using r a e s0 by (intro exI [of _ w1]) simp
  have p2: "\<exists>b w'. delete_from_storage ?c ''2024-06-06_newspaper.pdf'' True ?w = (b, w')
         \<and> st w' = sample_bucket \<and> calls w' = []"
    using d f s0 c0 by (intro exI [of _ b] exI [of _ w2]) simp
  show ?thesis by (intro conjI sv cut ks p1 p2)
qed

text \<open>
  C3, as stated, fails. When the listing is refused, \<^verbatim>\<open>delete_old_files\<close>
  returns 0; on an empty bucket, where nothing is to purge, it returns 0 as well. The
  value returned does not tell the two apart.
\<close>

theorem listing_failure_returns_plain_zero:
  "map_option fst (delete_old_files (Some no_listing_s3) (739047 * MICROS_PER_DAY) 3 [] False
                     (world0 sample_bucket)) = Some (Inr 0)
   \<and> map_option fst (delete_old_files (Some (fake_s3 3)) (739047 * MICROS_PER_DAY) 3 [] False
                       (world0 [])) = Some (Inr 0)"
  by code_simp

text \<open>
  C3, amended. When the paginator raises during the listing, \<^verbatim>\<open>delete_old_files\<close>
  returns 0, sends no delete request, leaves the store as it was, and logs exactly one
  error record, which names the failure. When the listing ends and nothing is older
  than the cutoff it returns 0 too, and logs no error record: the two cases differ in
  the log only.
\<close>

theorem listing_failure_shows_in_log_only:
  "(raises_after c (st w) prefix None pages e \<and> datetime_minus_days now days = Inr cutoff
      \<longrightarrow> (\<exists>w'. delete_old_files (Some c) now days prefix dry_run w = Some (Inr 0, w')
                \<and> st w' = st w
                \<and> (\<forall>x \<in> set (new_calls w w'). \<not> is_delete_call x)
                \<and> filter is_error_record (new_logs w w')
                    = [(ERROR,
                        if e = ClientError then ''Error listing or preparing files for deletion: %s''
                        else ''Unexpected error during file deletion process: %s'',
                        [E e])]))
   \<and> (yields cs (st ws) prefixs None pagess \<and> datetime_minus_days now days = Inr cutoff
       \<and> marked_objects cutoff pagess = []
      \<longrightarrow> (\<exists>w'. delete_old_files (Some cs) now days prefixs dry_run ws = Some (Inr 0, w')
                \<and> filter is_error_record (new_logs ws w') = []))"
proof (intro conjI impI)
  assume h: "raises_after c (st w) prefix None pages e \<and> datetime_minus_days now days = Inr cutoff"
  then have br: "raises_after c (st w) prefix None pages e"
    and cut: "datetime_minus_days now days = Inr cutoff" by simp_all
  from delete_old_files_raises [OF br cut, of dry_run] obtain w' where
    r: "delete_old_files (Some c) now days prefix dry_run w = Some (Inr 0, w')"
    and s: "st w' = st w"
    and nc: "\<forall>x \<in> set (new_calls w w'). is_list_call x"
    and lg: "filter is_error_record (new_logs w w')
                 = [(ERROR,
                     if e = ClientError then ''Error listing or preparing files for deletion: %s''
                     else ''Unexpected error during file deletion process: %s'',
                     [E e])]"
    by blast
  have "\<forall>x \<in> set (new_calls w w'). \<not> is_delete_call x"
    using nc by (auto dest: list_call_not_delete)
  with r s lg
  show "\<exists>w'. delete_old_files (Some c) now days prefix dry_run w = Some (Inr 0, w')
                \<and> st w' = st w
                \<and> (\<forall>x \<in> set (new_calls w w'). \<not> is_delete_call x)
                \<and> filter is_error_record (new_logs w w')
                    = [(ERROR,
                        if e = ClientError then ''Error listing or preparing files for deletion: %s''
                        else ''Unexpected error during file deletion process: %s'',
                        [E e])]"
    by blast
next
  assume h: "yields cs (st ws) prefixs None pagess \<and> datetime_minus_days now days = Inr cutoff
       \<and> marked_objects cutoff pagess = []"
  then have sv: "yields cs (st ws) prefixs None pagess"
    and cut: "datetime_minus_days now days = Inr cutoff"
    and em: "marked_objects cutoff pagess = []" by simp_all
  from delete_old_files_yields [OF sv cut, of dry_run] em
  show "\<exists>w'. delete_old_files (Some cs) now days prefixs dry_run ws = Some (Inr 0, w')
                \<and> filter is_error_record (new_logs ws w') = []"
    by auto
qed

theorem listing_failure_shows_in_log_only_witness:
  "raises_after flaky_s3 (st (world0 sample_bucket)) [] None [hd sample_pages] ClientError
   \<and> datetime_minus_days (739047 * MICROS_PER_DAY) 3 = Inr (739044 * MICROS_PER_DAY)
   \<and> yields (fake_s3 3) (st (world0 sample_bucket)) [] None sample_pages
   \<and> datetime_minus_days (739047 * MICROS_PER_DAY) 30 = Inr (739017 * MICROS_PER_DAY)
   \<and> marked_objects (739017 * MICROS_PER_DAY) sample_pages = []
   \<and> (\<exists>w'. delete_old_files (Some flaky_s3) (739047 * MICROS_PER_DAY) 3 [] False
               (world0 sample_bucket) = Some (Inr 0, w')
         \<and> filter is_error_record (new_logs (world0 sample_bucket) w')
             = [(ERROR, ''Error listing or preparing files for deletion: %s'', [E ClientError])])
   \<and> (\<exists>w'. delete_old_files (Some (fake_s3 3)) (739047 * MICROS_PER_DAY) 30 [] False
               (world0 sample_bucket) = Some (Inr 0, w')
         \<and> filter is_error_record (new_logs (world0 sample_bucket) w') = [])"
proof -
  let ?w = "world0 sample_bucket"
  let ?now = "739047 * MICROS_PER_DAY"
  have st0: "st ?w = sample_bucket" by (simp add: world0_def)
  have "raises_after flaky_s3 sample_bucket [] None [hd sample_pages] ClientError" by code_simp
  then have br: "raises_after flaky_s3 (st ?w) [] None [hd sample_pages] ClientError"
    unfolding st0 .
  have sv: "yields (fake_s3 3) (st ?w) [] None sample_pages"
    unfolding st0 by (rule sample_pages_yielded)
  have c3: "datetime_minus_days ?now 3 = Inr (739044 * MICROS_PER_DAY)"
    and c30: "datetime_minus_days ?now 30 = Inr (739017 * MICROS_PER_DAY)" by code_simp+
  have em: "marked_objects (739017 * MICROS_PER_DAY) sample_pages = []" by code_simp
  note i1 = listing_failure_shows_in_log_only [where c = flaky_s3 and w = ?w and prefix = "[]"
      and pages = "[hd sample_pages]" and e = ClientError and now = ?now and days = 3
      and cutoff = "739044 * MICROS_PER_DAY" and dry_run = False,
      THEN conjunct1, rule_format, OF conjI, OF br c3]
  note i2 = listing_failure_shows_in_log_only [where cs = "fake_s3 3" and ws = ?w and prefixs = "[]"
      and pagess = sample_pages and now = ?now and days = 30
      and cutoff = "739017 * MICROS_PER_DAY" and dry_run = False,
      THEN conjunct2, rule_format, OF conjI, OF sv conjI, OF c30 em]
  from i1 have p1: "\<exists>w'. delete_old_files (Some flaky_s3) ?now 3 [] False ?w = Some (Inr 0, w')
         \<and> filter is_error_record (new_logs ?w w')
             = [(ERROR, ''Error listing or preparing files for deletion: %s'', [E ClientError])]"
    by auto
  show ?thesis by (intro conjI br c3 sv c30 em p1 i2)
qed

subsection \<open>Buckets of more than one batch\<close>

lemma startswith_Nil [simp]: "startswith s [] = True"
  by (simp add: startswith_def)

lemma filter_delete_page_calls [simp]:
  "filter is_delete_call (page_calls prefix tok pages) = []"
  by (simp add: page_calls_def is_delete_call_def filter_map o_def)

lemma length_big_bucket: "length big_bucket = 1001"
  by (simp add: big_bucket_def)

lemma big_bucket_old: "filter (\<lambda>obj. LastModified obj < 739046 * MICROS_PER_DAY) big_bucket = big_bucket"
  by (simp add: big_bucket_def obj_def MICROS_PER_DAY_def filter_map o_def)

lemma big_pages_yielded: "yields (no_bulk_delete_s3 1000) big_bucket [] None big_pages"
proof -
  have ne: "take 1000 big_bucket \<noteq> []" "drop 1000 big_bucket \<noteq> []"
    using length_big_bucket by auto
  have t: "take 1000 (drop 1000 big_bucket) = drop 1000 big_bucket"
    using length_big_bucket by simp
  show ?thesis
    by (simp add: big_pages_def no_bulk_delete_s3_def fake_s3_def Let_def length_big_bucket ne t)
qed

lemma big_marked: "marked_objects (739046 * MICROS_PER_DAY) big_pages = big_bucket"
  by (simp add: marked_objects_def big_pages_def contents_of_def big_bucket_old)

lemma big_batches:
  "batches_of 1000 (map Key big_bucket)
     = [take 1000 (map Key big_bucket), drop 1000 (map Key big_bucket)]"
proof -
  have 1: "map Key big_bucket \<noteq> []" and 2: "drop 1000 (map Key big_bucket) \<noteq> []"
    and 3: "drop 1000 (drop 1000 (map Key big_bucket)) = []"
    and 4: "take 1000 (drop 1000 (map Key big_bucket)) = drop 1000 (map Key big_bucket)"
    using length_big_bucket by auto
  show ?thesis
    unfolding batches_of_step [OF 1] batches_of_step [OF 2] 3 4 by simp
qed

lemma length_large_bucket: "length large_bucket = 2500"
  by (simp add: large_bucket_def)

lemma large_bucket_old:
  "filter (\<lambda>obj. LastModified obj < 739046 * MICROS_PER_DAY) large_bucket = large_bucket"
  by (simp add: large_bucket_def obj_def MICROS_PER_DAY_def filter_map o_def)

lemma large_pages_yielded:
  "yields (counting_s3 1000 answer) (large_bucket, n) [] None large_pages"
proof -
  have ne: "take 1000 large_bucket \<noteq> []" "take 1000 (drop 1000 large_bucket) \<noteq> []"
    "drop 2000 large_bucket \<noteq> []"
    using length_large_bucket by auto
  have t: "take 1000 (drop 2000 large_bucket) = drop 2000 large_bucket"
    using length_large_bucket by simp
  show ?thesis
    by (simp add: large_pages_def counting_s3_def fake_s3_def Let_def length_large_bucket ne t)
qed

lemma large_contents: "concat (map contents_of large_pages) = large_bucket"
proof -
  have d: "drop 2000 large_bucket = drop 1000 (drop 1000 large_bucket)" by simp
  have e: "take 1000 (drop 1000 large_bucket) @ drop 2000 large_bucket = drop 1000 large_bucket"
    unfolding d by (rule append_take_drop_id)
  have "take 1000 large_bucket @ take 1000 (drop 1000 large_bucket) @ drop 2000 large_bucket
          = large_bucket"
    unfolding e by (rule append_take_drop_id)
  then show ?thesis by (simp add: large_pages_def contents_of_def)
qed

lemma large_marked: "marked_objects (739046 * MICROS_PER_DAY) large_pages = large_bucket"
  unfolding marked_objects_def large_contents by (rule large_bucket_old)

lemma large_batches:
  assumes "length ks = 2500"
  shows "batches_of 1000 ks = [take 1000 ks, take 1000 (drop 1000 ks), drop 2000 ks]"
proof -
  have 1: "ks \<noteq> []" and 2: "drop 1000 ks \<noteq> []" and 3: "drop 1000 (drop 1000 ks) \<noteq> []"
    and 4: "drop 1000 (drop 1000 (drop 1000 ks)) = []"
    and 5: "take 1000 (drop 1000 (drop 1000 ks)) = drop 2000 ks"
    using assms by auto
  show ?thesis
    unfolding batches_of_step [OF 1] batches_of_step [OF 2] batches_of_step [OF 3] 4 5 by simp
qed



lemma outage_replies:
  "takeWhile answered (replies outage_s3 (s, 0) [b1, b2, b3])
     = [Inr \<lparr>Deleted = Some b1, Errors = None\<rparr>]"
  "first_error outage_s3 (s, 0) [b1, b2, b3] = Some ClientError"
  by (simp_all add: outage_s3_def counting_s3_def answered_def)

subsection \<open>The real purge\<close>



subsection \<open>A bulk delete that raises\<close>

text \<open>
  C4, as stated, fails. The bucket holds 1001 old keys, two batches. The first bulk
  delete raises \<^verbatim>\<open>ClientError\<close>: the purge returns 0 and the only delete request
  in the trace is the first batch; the second batch is never sent.
\<close>

theorem second_batch_not_sent_after_raise:
  "length (batches_of 1000 (map Key (marked_objects (739046 * MICROS_PER_DAY) big_pages))) = 2
   \<and> map_option (filter is_delete_call \<circ> calls \<circ> snd)
        (delete_old_files (Some (no_bulk_delete_s3 1000)) (739047 * MICROS_PER_DAY) 1 [] False
           (world0 big_bucket))
       = Some [DeleteObjects (take 1000 (map Key big_bucket))]
   \<and> map_option fst
        (delete_old_files (Some (no_bulk_delete_s3 1000)) (739047 * MICROS_PER_DAY) 1 [] False
           (world0 big_bucket))
       = Some (Inr 0)"
proof -
  let ?w = "world0 big_bucket"
  let ?c = "no_bulk_delete_s3 1000"
  let ?keys = "map Key big_bucket"
  have sv: "yields ?c (st ?w) [] None big_pages"
    using big_pages_yielded by (simp add: world0_def)
  have cut: "datetime_minus_days (739047 * MICROS_PER_DAY) 1 = Inr (739046 * MICROS_PER_DAY)"
    by code_simp
  have ne: "?keys \<noteq> []" using length_big_bucket by auto
  have iss: "issued ?c (st ?w) [take 1000 ?keys, drop 1000 ?keys] = [take 1000 ?keys]"
    by (simp add: no_bulk_delete_s3_def)
  have pc: "purge_count ?c (st ?w) [take 1000 ?keys, drop 1000 ?keys] = 0"
    by (simp add: purge_count_def no_bulk_delete_s3_def)
  from delete_old_files_yields [OF sv cut, of False] obtain w' where
    r: "delete_old_files (Some ?c) (739047 * MICROS_PER_DAY) 1 [] False ?w = Some (Inr 0, w')"
    and nc: "new_calls ?w w' = page_calls [] None big_pages @ [DeleteObjects (take 1000 ?keys)]"
    unfolding big_marked big_batches iss pc using ne by auto
  have "calls w' = new_calls ?w w'" by (simp add: new_calls_def world0_def)
  then have c: "filter is_delete_call (calls w') = [DeleteObjects (take 1000 ?keys)]"
    unfolding nc by (simp add: is_delete_call_def)
  have l: "length (batches_of 1000 (map Key (marked_objects (739046 * MICROS_PER_DAY) big_pages))) = 2"
    unfolding big_marked big_batches by simp
  show ?thesis using l r c by simp
qed

text \<open>
  C4, amended. On a store whose paginator hands over the listing, a real purge sends
  the batches in order, all of them when no bulk delete raises, and otherwise up to and
  including the first whose bulk delete raises \<^verbatim>\<open>ClientError\<close>: errors reported
  for single keys inside an answer stop nothing, a request that raises ends the purge.
  The count returned is the sum of the deleted keys of the answers received before it.
\<close>

theorem purge_stops_at_first_raise:
  assumes sv: "yields c (st w) prefix None pages"
    and cut: "datetime_minus_days now days = Inr cutoff"
    and fe: "first_error c (st w) (batches_of 1000 (map Key (marked_objects cutoff pages))) = None
             \<or> first_error c (st w) (batches_of 1000 (map Key (marked_objects cutoff pages)))
                 = Some ClientError"
  shows "\<exists>w'. delete_old_files (Some c) now days prefix False w
               = Some (Inr (sum_list (map deleted_count
                              (takeWhile answered
                                 (replies c (st w)
                                    (batches_of 1000 (map Key (marked_objects cutoff pages))))))),
                       w')
             \<and> new_calls w w'
                 = page_calls prefix None pages
                   @ map DeleteObjects
                       (take (Suc (length (takeWhile answered
                                             (replies c (st w)
                                                (batches_of 1000
                                                   (map Key (marked_objects cutoff pages)))))))
                          (batches_of 1000 (map Key (marked_objects cutoff pages))))"
proof -
  define keys where "keys = map Key (marked_objects cutoff pages)"
  define bs where "bs = batches_of 1000 keys"
  have fe': "first_error c (st w) bs = None \<or> first_error c (st w) bs = Some ClientError"
    using fe unfolding bs_def keys_def .
  have pc: "purge_count c (st w) bs = tally c (st w) bs"
    using fe' by (auto simp: purge_count_def)
  have empty: "keys = [] \<Longrightarrow> tally c (st w) bs = 0"
    by (simp add: bs_def)
  from delete_old_files_yields [OF sv cut, of False] obtain w' where
    r: "delete_old_files (Some c) now days prefix False w
          = Some (Inr (if keys = [] then 0 else purge_count c (st w) bs), w')"
    and nc: "new_calls w w' = page_calls prefix None pages @ map DeleteObjects (issued c (st w) bs)"
    unfolding keys_def bs_def by auto
  have r': "delete_old_files (Some c) now days prefix False w
          = Some (Inr (tally c (st w) bs), w')"
    using r pc empty by (cases "keys = []") simp_all
  show ?thesis
    unfolding keys_def [symmetric] bs_def [symmetric]
    using r' nc
    by (intro exI [of _ w']) (simp add: tally_replies issued_replies)
qed

theorem purge_stops_at_first_raise_witness:
  "yields outage_s3 (st (world0 (large_bucket, 0))) [] None large_pages
   \<and> datetime_minus_days (739047 * MICROS_PER_DAY) 1 = Inr (739046 * MICROS_PER_DAY)
   \<and> batches_of 1000 (map Key (marked_objects (739046 * MICROS_PER_DAY) large_pages))
       = [take 1000 (map Key large_bucket), take 1000 (drop 1000 (map Key large_bucket)),
          drop 2000 (map Key large_bucket)]
   \<and> first_error outage_s3 (st (world0 (large_bucket, 0)))
        (batches_of 1000 (map Key (marked_objects (739046 * MICROS_PER_DAY) large_pages)))
       = Some ClientError
   \<and> (\<exists>w'. delete_old_files (Some outage_s3) (739047 * MICROS_PER_DAY) 1 [] False
               (world0 (large_bucket, 0)) = Some (Inr 1000, w')
         \<and> new_calls (world0 (large_bucket, 0)) w'
             = page_calls [] None large_pages
               @ [DeleteObjects (take 1000 (map Key large_bucket)),
                  DeleteObjects (take 1000 (drop 1000 (map Key large_bucket)))])"
proof -
  let ?w = "world0 (large_bucket, 0::nat)"
  let ?ks = "map Key large_bucket"
  let ?bs = "batches_of 1000 (map Key (marked_objects (739046 * MICROS_PER_DAY) large_pages))"
  have st0: "st ?w = (large_bucket, 0)" by (simp add: world0_def)
  have sv: "yields outage_s3 (st ?w) [] None large_pages"
    unfolding st0 outage_s3_def by (rule large_pages_yielded)
  have cut: "datetime_minus_days (739047 * MICROS_PER_DAY) 1 = Inr (739046 * MICROS_PER_DAY)"
    by code_simp
  have lk: "length ?ks = 2500" by (simp add: length_large_bucket)
  have bs: "?bs = [take 1000 ?ks, take 1000 (drop 1000 ?ks), drop 2000 ?ks]"
    unfolding large_marked by (rule large_batches [OF lk])
  have fe: "first_error outage_s3 (st ?w) ?bs = Some ClientError"
    unfolding bs st0 by (rule outage_replies(2))
  have tw: "takeWhile answered (replies outage_s3 (st ?w) ?bs)
              = [Inr \<lparr>Deleted = Some (take 1000 ?ks), Errors = None\<rparr>]"
    unfolding bs st0 by (rule outage_replies(1))
  have n: "sum_list (map deleted_count
                       [Inr \<lparr>Deleted = Some (take 1000 ?ks), Errors = None\<rparr>]) = 1000"
    by (simp add: deleted_count_def deleted_of_def length_large_bucket)
  have tk: "take (Suc (length [Inr \<lparr>Deleted = Some (take 1000 ?ks), Errors = None\<rparr>
                                :: py_error + delete_response]))
              [take 1000 ?ks, take 1000 (drop 1000 ?ks), drop 2000 ?ks]
              = [take 1000 ?ks, take 1000 (drop 1000 ?ks)]"
    by simp
  from purge_stops_at_first_raise [OF sv cut disjI2, OF fe] obtain w' where
    r0: "delete_old_files (Some outage_s3) (739047 * MICROS_PER_DAY) 1 [] False ?w
           = Some (Inr (sum_list (map deleted_count
                          (takeWhile answered (replies outage_s3 (st ?w) ?bs)))), w')"
    and nc0: "new_calls ?w w'
                = page_calls [] None large_pages
                  @ map DeleteObjects
                      (take (Suc (length (takeWhile answered (replies outage_s3 (st ?w) ?bs))))
                         ?bs)"
    by (elim exE conjE)
  have r: "delete_old_files (Some outage_s3) (739047 * MICROS_PER_DAY) 1 [] False ?w = Some (Inr 1000, w')"
    using r0 unfolding tw n .
  have nc: "new_calls ?w w'
              = page_calls [] None large_pages
                @ [DeleteObjects (take 1000 ?ks), DeleteObjects (take 1000 (drop 1000 ?ks))]"
    using nc0 [unfolded tw] unfolding bs tk by (simp only: list.map)
  have p: "\<exists>w'. delete_old_files (Some outage_s3) (739047 * MICROS_PER_DAY) 1 [] False ?w = Some (Inr 1000, w')
         \<and> new_calls ?w w'
             = page_calls [] None large_pages
               @ [DeleteObjects (take 1000 ?ks), DeleteObjects (take 1000 (drop 1000 ?ks))]"
    by (intro exI [of _ w'] conjI r nc)
  show ?thesis by (intro conjI sv cut bs fe p)
qed

end
